theory Spec2Isabelle
  imports Complex_Main "HOL-Library.Multiset"
begin

section \<open>The WFG hypervolume engine (src/util/hv_algorithm/wfg.cpp)\<close>

text \<open>
  A \<^verbatim>\<open>double\<close> is modelled as a \<^typ>\<open>real\<close>: \<^verbatim>\<open>fmax\<close> is \<^const>\<open>max\<close>, \<^verbatim>\<open>fabs\<close> is
  \<^const>\<open>abs\<close>; rounding, infinities and NaN are outside the model. A \<^verbatim>\<open>double*\<close> is the list
  of the cells it points to, a \<^verbatim>\<open>double**\<close> the list of its rows. The unsigned sizes and
  indices are natural numbers.

  C++ does not check an array access. Where the engine would read or write outside an
  array, the model returns \<open>Out_of_range\<close>: each function first tests that the cells it
  touches exist. \<open>Value_error\<close> is pagmo's \<^verbatim>\<open>value_error\<close>, \<open>Bad_numeric_cast\<close> the exception
  of \<^verbatim>\<open>boost::numeric_cast\<close>. \<open>Out_of_fuel\<close> is the model's own: the recursion of
  \<open>compute_hv\<close> and \<open>exclusive_hv\<close> is bounded by a counter, and \<open>compute_hv_returns\<close> below
  shows how much of it a call needs.
\<close>

type_synonym point = "real list"

type_synonym frame = "point list"

datatype error = Value_error | Bad_numeric_cast | Out_of_range | Out_of_fuel

datatype dom_cmp_result =
  DOM_CMP_B_DOMINATES_A | DOM_CMP_A_DOMINATES_B | DOM_CMP_A_B_EQUAL | DOM_CMP_INCOMPARABLE

text \<open>
  Modelled from the spec: \<^verbatim>\<open>base::dom_cmp\<close> of hv_algorithm/base.cpp is not among the
  sources. Section 4.1 of the specification: over the first \<open>sz\<close> components, A
  dominates B when A is nowhere greater and somewhere smaller, B dominates A likewise,
  the two are equal when all components agree, and otherwise neither dominates.
\<close>

definition dom_cmp :: "point \<Rightarrow> point \<Rightarrow> nat \<Rightarrow> dom_cmp_result" where
  "dom_cmp a b sz =
     (if list_all (\<lambda>i. a ! i = b ! i) [0..<sz] then DOM_CMP_A_B_EQUAL
      else if list_all (\<lambda>i. a ! i \<le> b ! i) [0..<sz] then DOM_CMP_A_DOMINATES_B
      else if list_all (\<lambda>i. b ! i \<le> a ! i) [0..<sz] then DOM_CMP_B_DOMINATES_A
      else DOM_CMP_INCOMPARABLE)"

text \<open>
  Modelled from the spec: \<^verbatim>\<open>base::volume_between\<close> of hv_algorithm/base.cpp is not among
  the sources. Section 4.2 of the specification: the product over the first \<open>sz\<close>
  dimensions of reference minus point.
\<close>

definition volume_between :: "point \<Rightarrow> point \<Rightarrow> nat \<Rightarrow> real" where
  "volume_between a b sz = prod_list (map (\<lambda>i. b ! i - a ! i) [0..<sz])"

text \<open>
  \<^verbatim>\<open>hv2d().compute\<close> and \<^verbatim>\<open>hypervolume(points_cpy, false).compute\<close>, which \<open>compute_hv\<close>
  calls once the slicing has reached the stop dimension, are not among the sources. They
  are parameters of the model: two functions from the points (and their number) and the
  reference point to a volume.
\<close>

record direct_algorithms =
  hv2d_compute :: "frame \<Rightarrow> nat \<Rightarrow> point \<Rightarrow> real"
  hypervolume_compute :: "point list \<Rightarrow> point \<Rightarrow> real"

record wfg =
  m_current_slice :: nat
  m_stop_dimension :: nat
  m_refpoint :: point
  m_frames :: "frame list"
  m_frames_size :: "nat list"
  m_n_frames :: nat
  m_max_points :: nat
  m_max_dim :: nat

text \<open>The constructor (lines 50-55). The fields it leaves uninitialised are empty here.\<close>

definition wfg_new :: "nat \<Rightarrow> error + wfg" where
  "wfg_new stop_dimension =
     (if stop_dimension < 2 then Inl Value_error
      else Inr \<lparr>m_current_slice = 0, m_stop_dimension = stop_dimension, m_refpoint = [],
                m_frames = [], m_frames_size = [], m_n_frames = 0, m_max_points = 0,
                m_max_dim = 0\<rparr>)"

subsection \<open>The sorting comparator (lines 37-47) and std::sort\<close>

text \<open>\<open>cmp_func_from i a b\<close> is the loop of \<open>cmp_func\<close> with \<open>i\<close> coordinates left to look at.\<close>

fun cmp_func_from :: "nat \<Rightarrow> point \<Rightarrow> point \<Rightarrow> bool" where
  "cmp_func_from 0 a b = False"
| "cmp_func_from (Suc i) a b =
     (if a ! i > b ! i then True
      else if a ! i < b ! i then False
      else cmp_func_from i a b)"

definition cmp_func :: "wfg \<Rightarrow> point \<Rightarrow> point \<Rightarrow> bool" where
  "cmp_func st a b = cmp_func_from (m_current_slice st) a b"

text \<open>
  \<^verbatim>\<open>std::sort\<close> is the standard library's: it returns the range permuted so that no element
  comes before one the comparator puts first. The model is insertion sort. The standard
  fixes no order among elements the comparator holds equivalent; \<open>sorted_unique\<close> below
  shows that the choice is immaterial where such elements are equal rows.
\<close>

fun insert_sorted :: "('a \<Rightarrow> 'a \<Rightarrow> bool) \<Rightarrow> 'a \<Rightarrow> 'a list \<Rightarrow> 'a list" where
  "insert_sorted lt x [] = [x]"
| "insert_sorted lt x (y # ys) = (if lt x y then x # y # ys else y # insert_sorted lt x ys)"

definition std_sort :: "('a \<Rightarrow> 'a \<Rightarrow> bool) \<Rightarrow> 'a list \<Rightarrow> 'a list" where
  "std_sort lt xs = foldr (insert_sorted lt) xs []"

subsection \<open>limitset (lines 114-166)\<close>

text \<open>Lines 123-125: the first \<open>k\<close> cells of the row become the larger of \<open>q\<close> and \<open>p\<close>.\<close>

definition limit_row :: "nat \<Rightarrow> point \<Rightarrow> point \<Rightarrow> point \<Rightarrow> point" where
  "limit_row k q p row = map (\<lambda>f_idx. max (q ! f_idx) (p ! f_idx)) [0..<k] @ drop k row"

text \<open>Lines 147-149 and 157-159: the first \<open>k\<close> cells of \<open>src\<close> are copied over those of \<open>dst\<close>.\<close>

definition copy_row :: "nat \<Rightarrow> point \<Rightarrow> point \<Rightarrow> point" where
  "copy_row k src dst = take k src @ drop k dst"

text \<open>
  Lines 130-139: \<open>s\<close> is compared with the kept rows in turn, the outcomes are stored, and
  the loop breaks at the first kept row that dominates \<open>s\<close>. The result is the stored
  outcomes and \<open>keep_s\<close>.
\<close>

fun dom_scan :: "nat \<Rightarrow> point \<Rightarrow> frame \<Rightarrow> dom_cmp_result list \<times> bool" where
  "dom_scan k s [] = ([], True)"
| "dom_scan k s (q # qs) =
     (let c = dom_cmp s q k in
      if c = DOM_CMP_B_DOMINATES_A then ([c], False)
      else (case dom_scan k s qs of (cs, keep_s) \<Rightarrow> (c # cs, keep_s)))"

text \<open>Lines 142-154: the kept rows that \<open>s\<close> neither dominates nor equals move to the front.\<close>

function compact :: "nat \<Rightarrow> dom_cmp_result list \<Rightarrow> nat \<Rightarrow> frame \<Rightarrow> nat \<Rightarrow> nat \<Rightarrow> frame \<times> nat" where
  "compact k cmp_results no_points fr prev next =
     (if next < no_points then
        (if cmp_results ! next \<noteq> DOM_CMP_A_DOMINATES_B \<and> cmp_results ! next \<noteq> DOM_CMP_A_B_EQUAL
         then compact k cmp_results no_points
                (if prev < next then fr[prev := copy_row k (fr ! next) (fr ! prev)] else fr)
                (Suc prev) (Suc next)
         else compact k cmp_results no_points fr prev (Suc next))
      else (fr, prev))"
  by pat_completeness auto
termination
  by (relation "measure (\<lambda>(k, cmp_results, no_points, fr, prev, next). no_points - next)") auto

text \<open>
  One round of the loop of line 121, for the point at \<open>idx\<close>: the state of the loop is the
  frames and \<open>no_points\<close>. \<open>points\<close> and \<open>rec_level\<close> are the indices of the frame read and
  of the frame written.
\<close>

definition limit_step :: "nat \<Rightarrow> nat \<Rightarrow> nat \<Rightarrow> nat \<Rightarrow> nat \<Rightarrow> frame list \<times> nat \<Rightarrow> frame list \<times> nat" where
  "limit_step k points p_idx rec_level idx state =
     (case state of (frames, no_points) \<Rightarrow>
        let fr = frames ! rec_level;
            fr1 = fr[no_points := limit_row k (frames ! points ! idx) (frames ! points ! p_idx) (fr ! no_points)];
            s = fr1 ! no_points
        in (case dom_scan k s (take no_points fr1) of (cmp_results, keep_s) \<Rightarrow>
              if keep_s then
                (case compact k cmp_results no_points fr1 0 0 of (fr2, prev) \<Rightarrow>
                   (frames[rec_level :=
                      (if prev < no_points then fr2[prev := copy_row k (fr2 ! no_points) (fr2 ! prev)] else fr2)],
                    prev + 1))
              else (frames[rec_level := fr1], no_points)))"

text \<open>The cells \<open>limitset\<close> touches exist.\<close>

definition limitset_in_range :: "wfg \<Rightarrow> nat \<Rightarrow> nat \<Rightarrow> nat \<Rightarrow> nat \<Rightarrow> bool" where
  "limitset_in_range st points n_points p_idx rec_level \<longleftrightarrow>
     rec_level < m_n_frames st \<and> rec_level < length (m_frames st) \<and>
     rec_level < length (m_frames_size st) \<and> points < length (m_frames st) \<and>
     p_idx < length (m_frames st ! points) \<and>
     (if Suc p_idx < n_points then
        n_points \<le> length (m_frames st ! points) \<and>
        list_all (\<lambda>row. m_current_slice st \<le> length row)
          (drop p_idx (take n_points (m_frames st ! points))) \<and>
        n_points - Suc p_idx \<le> length (m_frames st ! rec_level) \<and>
        list_all (\<lambda>row. m_current_slice st \<le> length row)
          (take (n_points - Suc p_idx) (m_frames st ! rec_level))
      else True)"

definition limitset :: "wfg \<Rightarrow> nat \<Rightarrow> nat \<Rightarrow> nat \<Rightarrow> nat \<Rightarrow> error + wfg" where
  "limitset st points n_points p_idx rec_level =
     (if \<not> limitset_in_range st points n_points p_idx rec_level then Inl Out_of_range
      else
        (case fold (limit_step (m_current_slice st) points p_idx rec_level)
                [Suc p_idx..<n_points] (m_frames st, 0) of
          (frames, no_points) \<Rightarrow>
            Inr (st\<lparr>m_frames := frames,
                    m_frames_size := (m_frames_size st)[rec_level := no_points]\<rparr>)))"

subsection \<open>compute_hv (lines 169-218) and exclusive_hv (lines 221-244)\<close>

text \<open>Line 208: the first \<open>n_points\<close> row pointers of the frame are sorted.\<close>

definition sort_frame :: "wfg \<Rightarrow> nat \<Rightarrow> nat \<Rightarrow> wfg" where
  "sort_frame st points n_points =
     st\<lparr>m_frames := (m_frames st)[points :=
            std_sort (cmp_func st) (take n_points (m_frames st ! points))
            @ drop n_points (m_frames st ! points)]\<rparr>"

text \<open>The rows \<open>compute_hv\<close> reads exist and have the cells of the current slice.\<close>

definition rows_in_range :: "wfg \<Rightarrow> nat \<Rightarrow> nat \<Rightarrow> bool" where
  "rows_in_range st points n_points \<longleftrightarrow>
     points < length (m_frames st) \<and> n_points \<le> length (m_frames st ! points) \<and>
     list_all (\<lambda>row. m_current_slice st \<le> length row) (take n_points (m_frames st ! points)) \<and>
     m_current_slice st \<le> length (m_refpoint st)"

text \<open>
  Lines 223-231: a frame for a depth reached for the first time. \<open>m_frames\<close> and
  \<open>m_frames_size\<close> were allocated with \<open>m_max_dim\<close> entries, the length of the lists here,
  and the new frame is stored at index \<open>m_n_frames\<close>. The cells of the new rows are not
  initialised by the source; they are 0 here.
\<close>

definition new_frame :: "wfg \<Rightarrow> nat \<Rightarrow> error + wfg" where
  "new_frame st rec_level =
     (if rec_level \<ge> m_n_frames st then
        (if m_n_frames st < length (m_frames st) \<and> m_n_frames st < length (m_frames_size st) then
           Inr (st\<lparr>m_frames := (m_frames st)[m_n_frames st :=
                       replicate (m_max_points st) (replicate (m_current_slice st) 0)],
                   m_frames_size := (m_frames_size st)[m_n_frames st := 0],
                   m_n_frames := m_n_frames st + 1\<rparr>)
         else Inl Out_of_range)
      else Inr st)"

text \<open>
  The loop of lines 213-215 over the indices \<open>is\<close>, with \<open>ex st i\<close> the call of
  \<open>exclusive_hv\<close> for the point at \<open>i\<close>. Each round adds the absolute value of the product.
\<close>

fun hv_loop :: "(wfg \<Rightarrow> nat \<Rightarrow> error + real \<times> wfg) \<Rightarrow> nat \<Rightarrow> wfg \<Rightarrow> nat list \<Rightarrow> real
    \<Rightarrow> error + real \<times> wfg" where
  "hv_loop ex points st [] H = Inr (H, st)"
| "hv_loop ex points st (i # is) H =
     (case ex st i of
        Inl e \<Rightarrow> Inl e
      | Inr (v, st') \<Rightarrow>
          hv_loop ex points st' is
            (H + \<bar>(m_frames st ! points ! i ! m_current_slice st
                     - m_refpoint st ! m_current_slice st) * v\<bar>))"

text \<open>What \<open>exclusive_hv\<close> reads once \<open>limitset\<close> has returned.\<close>

definition exclusive_in_range :: "wfg \<Rightarrow> nat \<Rightarrow> nat \<Rightarrow> nat \<Rightarrow> bool" where
  "exclusive_in_range st points p_idx rec_level \<longleftrightarrow>
     points < length (m_frames st) \<and> p_idx < length (m_frames st ! points) \<and>
     m_current_slice st \<le> length (m_frames st ! points ! p_idx) \<and>
     m_current_slice st \<le> length (m_refpoint st) \<and>
     (if m_frames_size st ! rec_level = 1 then
        0 < length (m_frames st ! rec_level) \<and>
        m_current_slice st \<le> length (m_frames st ! rec_level ! 0)
      else True)"

text \<open>
  \<open>points\<close> is the index in \<open>m_frames\<close> of the frame the pointer \<^verbatim>\<open>points\<close> points to: the
  source passes \<^verbatim>\<open>m_frames[0]\<close> (line 96) and \<^verbatim>\<open>m_frames[rec_level]\<close> (line 240), nothing else.

  Line 212: at \<open>m_current_slice = 0\<close> the decrement leaves no coordinate to read; with a point
  in the loop, line 214 reads outside its row, and with none the loop is empty and line 216
  restores the cursor.
\<close>

fun compute_hv :: "nat \<Rightarrow> direct_algorithms \<Rightarrow> wfg \<Rightarrow> nat \<Rightarrow> nat \<Rightarrow> nat \<Rightarrow> error + real \<times> wfg"
  and exclusive_hv :: "nat \<Rightarrow> direct_algorithms \<Rightarrow> wfg \<Rightarrow> nat \<Rightarrow> nat \<Rightarrow> nat \<Rightarrow> nat \<Rightarrow> error + real \<times> wfg"
where
  "compute_hv 0 d st points n_points rec_level = Inl Out_of_fuel"
| "compute_hv (Suc fuel) d st points n_points rec_level =
     (if \<not> rows_in_range st points n_points then Inl Out_of_range
      else if n_points = 1 then
        Inr (volume_between (m_frames st ! points ! 0) (m_refpoint st) (m_current_slice st), st)
      else if n_points = 2 then
        (let hv = volume_between (m_frames st ! points ! 0) (m_refpoint st) (m_current_slice st)
                  + volume_between (m_frames st ! points ! 1) (m_refpoint st) (m_current_slice st);
             isect = prod_list (map (\<lambda>i. m_refpoint st ! i
                        - max (m_frames st ! points ! 0 ! i) (m_frames st ! points ! 1 ! i))
                      [0..<m_current_slice st])
         in Inr (hv - isect, st))
      else if m_current_slice st = m_stop_dimension st then
        (if m_stop_dimension st = 2 then
           Inr (hv2d_compute d (m_frames st ! points) n_points (m_refpoint st), st)
         else
           Inr (hypervolume_compute d
                  (map (take (m_current_slice st)) (take n_points (m_frames st ! points)))
                  (take (m_current_slice st) (m_refpoint st)), st))
      else
        (let st1 = sort_frame st points n_points
         in if m_current_slice st1 = 0 then
              (if n_points = 0 then Inr (0, st1) else Inl Out_of_range)
            else
              (case hv_loop (\<lambda>s i. exclusive_hv fuel d s points n_points i rec_level) points
                      (st1\<lparr>m_current_slice := m_current_slice st1 - 1\<rparr>) [0..<n_points] 0 of
                 Inl e \<Rightarrow> Inl e
               | Inr (H, st2) \<Rightarrow> Inr (H, st2\<lparr>m_current_slice := m_current_slice st2 + 1\<rparr>))))"
| "exclusive_hv 0 d st points n_points p_idx rec_level = Inl Out_of_fuel"
| "exclusive_hv (Suc fuel) d st points n_points p_idx rec_level =
     (case new_frame st rec_level of
        Inl e \<Rightarrow> Inl e
      | Inr st1 \<Rightarrow>
          (case limitset st1 points n_points p_idx rec_level of
             Inl e \<Rightarrow> Inl e
           | Inr st2 \<Rightarrow>
               if \<not> exclusive_in_range st2 points p_idx rec_level then Inl Out_of_range
               else
                 (let H = volume_between (m_frames st2 ! points ! p_idx) (m_refpoint st2)
                            (m_current_slice st2)
                  in if m_frames_size st2 ! rec_level = 1 then
                       Inr (H - volume_between (m_frames st2 ! rec_level ! 0) (m_refpoint st2)
                                  (m_current_slice st2), st2)
                     else if m_frames_size st2 ! rec_level > 1 then
                       (case compute_hv fuel d st2 rec_level (m_frames_size st2 ! rec_level)
                               (rec_level + 1) of
                          Inl e \<Rightarrow> Inl e
                        | Inr (h, st3) \<Rightarrow> Inr (H - h, st3))
                     else Inr (H, st2))))"

subsection \<open>compute (lines 66-111)\<close>

text \<open>
  \<open>points\<close> is a reference to the caller's vector, which \<open>compute\<close> could assign to: the
  model returns it, as the call leaves it, beside the hypervolume. Lines 68-94, here
  \<open>start_state\<close>, copy the
  reference point and the first \<open>m_max_dim\<close> coordinates of each point; a point with fewer
  coordinates is read past its end, and with \<open>m_max_dim = 0\<close> lines 89-90 write into arrays
  of no entries. The deallocation of lines 99-108 has no counterpart here.
\<close>

definition start_state :: "wfg \<Rightarrow> point list \<Rightarrow> point \<Rightarrow> wfg" where
  "start_state st points r_point =
     (let max_points = length points; max_dim = length r_point in
      st\<lparr>m_max_points := max_points, m_max_dim := max_dim,
         m_refpoint := map (\<lambda>d_idx. r_point ! d_idx) [0..<max_dim],
         m_frames := (replicate max_dim [])
                       [0 := map (\<lambda>p. map (\<lambda>d_idx. p ! d_idx) [0..<max_dim]) points],
         m_frames_size := (replicate max_dim 0)[0 := max_points],
         m_n_frames := 1, m_current_slice := max_dim\<rparr>)"

definition compute :: "nat \<Rightarrow> direct_algorithms \<Rightarrow> wfg \<Rightarrow> point list \<Rightarrow> point
    \<Rightarrow> error + real \<times> point list" where
  "compute fuel d st points r_point =
     (if length r_point = 0 \<or> \<not> list_all (\<lambda>p. length r_point \<le> length p) points
      then Inl Out_of_range
      else
        (let st1 = start_state st points r_point in
         case compute_hv fuel d st1 0 (m_frames_size st1 ! 0) 1 of
           Inl e \<Rightarrow> Inl e
         | Inr (hv, st2) \<Rightarrow> Inr (hv, points)))"

subsection \<open>The accumulation as the specification words it\<close>

text \<open>
  Section 4.5 of the specification has the loop add the absolute value of the coordinate
  difference times the exclusive hypervolume. \<open>hv_loop_spec\<close> and \<open>spec_recursive_step\<close> follow
  these words, to be compared with \<open>hv_loop\<close> and the last branch of \<open>compute_hv\<close>.
\<close>

fun hv_loop_spec :: "(wfg \<Rightarrow> nat \<Rightarrow> error + real \<times> wfg) \<Rightarrow> nat \<Rightarrow> wfg \<Rightarrow> nat list \<Rightarrow> real
    \<Rightarrow> error + real \<times> wfg" where
  "hv_loop_spec ex points st [] H = Inr (H, st)"
| "hv_loop_spec ex points st (i # is) H =
     (case ex st i of
        Inl e \<Rightarrow> Inl e
      | Inr (v, st') \<Rightarrow>
          hv_loop_spec ex points st' is
            (H + \<bar>m_frames st ! points ! i ! m_current_slice st
                     - m_refpoint st ! m_current_slice st\<bar> * v))"

definition sorted_and_sliced :: "wfg \<Rightarrow> nat \<Rightarrow> nat \<Rightarrow> wfg" where
  "sorted_and_sliced st points n_points =
     (sort_frame st points n_points)\<lparr>m_current_slice := m_current_slice st - 1\<rparr>"

definition spec_recursive_step :: "nat \<Rightarrow> direct_algorithms \<Rightarrow> wfg \<Rightarrow> nat \<Rightarrow> nat \<Rightarrow> nat
    \<Rightarrow> error + real \<times> wfg" where
  "spec_recursive_step fuel d st points n_points rec_level =
     (case hv_loop_spec (\<lambda>s i. exclusive_hv fuel d s points n_points i rec_level) points
             (sorted_and_sliced st points n_points) [0..<n_points] 0 of
        Inl e \<Rightarrow> Inl e
      | Inr (H, st2) \<Rightarrow> Inr (H, st2\<lparr>m_current_slice := m_current_slice st2 + 1\<rparr>))"

text \<open>The values the calls of \<open>exclusive_hv\<close> return in the loop, in the order of the calls.\<close>

fun excl_values :: "(wfg \<Rightarrow> nat \<Rightarrow> error + real \<times> wfg) \<Rightarrow> wfg \<Rightarrow> nat list \<Rightarrow> error + real list" where
  "excl_values ex st [] = Inr []"
| "excl_values ex st (i # is) =
     (case ex st i of
        Inl e \<Rightarrow> Inl e
      | Inr (v, st') \<Rightarrow> (case excl_values ex st' is of Inl e \<Rightarrow> Inl e | Inr vs \<Rightarrow> Inr (v # vs)))"

text \<open>The hypervolume of a result, without the state or the points returned beside it.\<close>

definition volume_of :: "error + real \<times> 'a \<Rightarrow> error + real" where
  "volume_of r = (case r of Inl e \<Rightarrow> Inl e | Inr (v, x) \<Rightarrow> Inr v)"

subsection \<open>verify_before_compute (lines 255-258)\<close>

text \<open>
  Modelled from the spec: \<^verbatim>\<open>base::assert_minimisation\<close> of hv_algorithm/base.cpp is not among
  the sources. Sections 4.4 and 7 of the specification: an error is raised unless every
  point is smaller than or equal to the reference point in every component. The source's
  comment on \<open>verify_before_compute\<close> names the exception, \<^verbatim>\<open>value_error\<close>.
\<close>

definition assert_minimisation :: "point list \<Rightarrow> point \<Rightarrow> error + unit" where
  "assert_minimisation points r_point =
     (if list_all (\<lambda>p. list_all (\<lambda>(x, r). x \<le> r) (zip p r_point)) points then Inr ()
      else Inl Value_error)"

definition verify_before_compute :: "point list \<Rightarrow> point \<Rightarrow> error + unit" where
  "verify_before_compute points r_point = assert_minimisation points r_point"

text \<open>
  Modelled from the spec: the caller of the engine (\<^verbatim>\<open>hypervolume::compute\<close>) is not among
  the sources. Section 7 of the specification: the input is validated by
  \<open>verify_before_compute\<close> before \<open>compute\<close> runs.
\<close>

definition verified_compute :: "nat \<Rightarrow> direct_algorithms \<Rightarrow> wfg \<Rightarrow> point list \<Rightarrow> point
    \<Rightarrow> error + real \<times> point list" where
  "verified_compute fuel d st points r_point =
     (case verify_before_compute points r_point of
        Inl e \<Rightarrow> Inl e
      | Inr u \<Rightarrow> compute fuel d st points r_point)"

subsection \<open>Concrete engines and inputs\<close>

definition no_direct :: direct_algorithms where
  "no_direct = \<lparr>hv2d_compute = (\<lambda>ps n r. 0), hypervolume_compute = (\<lambda>ps r. 0)\<rparr>"

definition engine2 :: wfg where
  "engine2 = \<lparr>m_current_slice = 0, m_stop_dimension = 2, m_refpoint = [],
               m_frames = [], m_frames_size = [], m_n_frames = 0, m_max_points = 0,
               m_max_dim = 0\<rparr>"


subsection \<open>The limited set as the specification words it\<close>

text \<open>
  Section 4.5 of the specification on \<open>limitset\<close>: the candidates are the component-wise
  maxima, over the current slice, of the point at \<open>p_idx\<close> with each later point; a candidate
  stays unless another dominates it, and equal candidates stay once. \<open>dominates\<close> is the
  strict outcome of the comparator, \<open>limit_candidates\<close> the candidates in the order of the
  points, \<open>keep_candidate\<close> what becomes of the points kept so far when one more candidate
  is looked at, and \<open>limited_set\<close> the points a frame holds, cut to the current slice.
\<close>

definition dominates :: "nat \<Rightarrow> point \<Rightarrow> point \<Rightarrow> bool" where
  "dominates k a b \<longleftrightarrow> dom_cmp a b k = DOM_CMP_A_DOMINATES_B"

definition limit_candidates :: "nat \<Rightarrow> frame \<Rightarrow> nat \<Rightarrow> nat \<Rightarrow> point list" where
  "limit_candidates k fr p_idx n_points =
     map (\<lambda>idx. map (\<lambda>f_idx. max (fr ! idx ! f_idx) (fr ! p_idx ! f_idx)) [0..<k])
       [Suc p_idx..<n_points]"

definition keep_candidate :: "nat \<Rightarrow> point \<Rightarrow> point list \<Rightarrow> point list" where
  "keep_candidate k c kept =
     (if list_ex (\<lambda>q. dom_cmp c q k = DOM_CMP_B_DOMINATES_A) kept then kept
      else filter (\<lambda>q. dom_cmp c q k \<noteq> DOM_CMP_A_DOMINATES_B \<and> dom_cmp c q k \<noteq> DOM_CMP_A_B_EQUAL)
             kept @ [c])"

definition limited_set :: "wfg \<Rightarrow> nat \<Rightarrow> point list" where
  "limited_set st rec_level =
     map (take (m_current_slice st)) (take (m_frames_size st ! rec_level) (m_frames st ! rec_level))"

text \<open>What the kept points are to the candidates looked at so far.\<close>

definition kept_inv :: "nat \<Rightarrow> point list \<Rightarrow> point list \<Rightarrow> bool" where
  "kept_inv k kept cs \<longleftrightarrow>
     set kept \<subseteq> set cs \<and> distinct kept \<and>
     (\<forall>a\<in>set kept. \<forall>b\<in>set kept. \<not> dominates k a b) \<and>
     (\<forall>c\<in>set cs. c \<in> set kept \<or> (\<exists>m\<in>set kept. dominates k m c))"


subsection \<open>The shape of the frames during a call of compute\<close>

text \<open>
  \<open>frames_ok\<close>: the arrays have the \<open>m_max_dim\<close> entries \<open>compute\<close> allocates, and each frame
  allocated so far has \<open>m_max_points\<close> rows, those of the frame at depth \<open>l\<close> of
  \<open>m_max_dim - l\<close> cells. \<open>call_ok\<close>: what holds when the source calls \<open>compute_hv\<close>: the
  points are in the frame above the one \<open>rec_level\<close> names, the cursor is the length of their
  rows, and more than two points come with a slice of two dimensions at least unless the
  direct algorithm takes them.
\<close>

definition frames_ok :: "wfg \<Rightarrow> bool" where
  "frames_ok st \<longleftrightarrow>
     length (m_frames st) = m_max_dim st \<and> length (m_frames_size st) = m_max_dim st \<and>
     length (m_refpoint st) = m_max_dim st \<and> 0 < m_n_frames st \<and>
     m_n_frames st \<le> m_max_dim st \<and>
     (\<forall>l<m_n_frames st. length (m_frames st ! l) = m_max_points st \<and>
        (\<forall>row\<in>set (m_frames st ! l). length row = m_max_dim st - l))"

definition call_ok :: "wfg \<Rightarrow> nat \<Rightarrow> nat \<Rightarrow> nat \<Rightarrow> bool" where
  "call_ok st points n_points rec_level \<longleftrightarrow>
     frames_ok st \<and> rec_level = points + 1 \<and> points < m_n_frames st \<and>
     m_current_slice st + points = m_max_dim st \<and> n_points \<le> m_max_points st \<and>
     (n_points \<le> 2 \<or> m_current_slice st = m_stop_dimension st \<or> 2 \<le> m_current_slice st)"

text \<open>What a call of the recursion is to leave as it found it.\<close>

definition fixed_part :: "wfg \<Rightarrow> nat \<times> nat \<times> point \<times> nat \<times> nat \<times> nat \<times> nat" where
  "fixed_part st = (m_current_slice st, m_stop_dimension st, m_refpoint st, m_max_points st,
     m_max_dim st, length (m_frames st), length (m_frames_size st))"

definition pts3 :: "point list" where
  "pts3 = [[1, 2, 3], [3, 2, 1], [2, 3, 1], [2, 2, 2]]"

definition ref3 :: point where
  "ref3 = [4, 4, 4]"

definition sliced3 :: wfg where
  "sliced3 = sorted_and_sliced (start_state engine2 pts3 ref3) 0 4"


text \<open>Three points and a reference point that the third point exceeds.\<close>

definition pts_beyond :: "point list" where
  "pts_beyond = [[- 1, - 1, 3], [- 1, - 1, 2], [5, 5, 1]]"

definition ref_beyond :: point where
  "ref_beyond = [0, 0, 4]"


subsection \<open>The engine over an explicit memory\<close>

text \<open>
  Whether \<open>compute\<close> leaves the caller's arrays alone depends on which arrays the engine
  writes. For that question the same functions are given once more with the arrays of
  doubles in an explicit memory: \<open>mem\<close> lists the arrays, the address of an array is its
  index, and a \<^verbatim>\<open>double*\<close> is an address. \<open>m_refpoint_p\<close> is the address of the engine's copy of
  the reference point, and \<open>m_frames_p\<close> holds, for each frame, the array of the addresses
  of its rows. \<^verbatim>\<open>new double[n]\<close> appends an array to \<open>mem\<close>; \<^verbatim>\<open>delete[]\<close> has no counterpart, an
  array that is freed stays where it is. The memory is carried with the fields of the
  engine. \<open>recursion_sim\<close> and \<open>compute_p_sim\<close> below show that these functions return what
  \<open>compute_hv\<close>, \<open>exclusive_hv\<close> and \<open>compute\<close> return on the arrays the pointers point to.
\<close>

record wfg_mem =
  mem :: "point list"
  m_current_slice_p :: nat
  m_stop_dimension_p :: nat
  m_refpoint_p :: nat
  m_frames_p :: "nat list list"
  m_frames_size_p :: "nat list"
  m_n_frames_p :: nat
  m_max_points_p :: nat
  m_max_dim_p :: nat

text \<open>Every pointer the engine holds is the address of an array.\<close>

definition pointers_valid :: "wfg_mem \<Rightarrow> bool" where
  "pointers_valid st \<longleftrightarrow>
     m_refpoint_p st < length (mem st) \<and>
     list_all (list_all (\<lambda>a. a < length (mem st))) (m_frames_p st)"

text \<open>The engine with each pointer replaced by the array it points to.\<close>

definition view :: "wfg_mem \<Rightarrow> wfg" where
  "view st =
     \<lparr>m_current_slice = m_current_slice_p st, m_stop_dimension = m_stop_dimension_p st,
      m_refpoint = mem st ! m_refpoint_p st,
      m_frames = map (map (\<lambda>a. mem st ! a)) (m_frames_p st),
      m_frames_size = m_frames_size_p st, m_n_frames = m_n_frames_p st,
      m_max_points = m_max_points_p st, m_max_dim = m_max_dim_p st\<rparr>"

text \<open>
  \<open>limitset\<close> (lines 114-166). \<open>points\<close> and \<open>frame\<close> are the arrays of row addresses the
  source calls so; the loops write the cells of rows of \<open>frame\<close>.
\<close>

function compact_p :: "nat \<Rightarrow> dom_cmp_result list \<Rightarrow> nat \<Rightarrow> nat list \<Rightarrow> point list \<Rightarrow> nat \<Rightarrow> nat
    \<Rightarrow> point list \<times> nat" where
  "compact_p k cmp_results no_points frame h prev next =
     (if next < no_points then
        (if cmp_results ! next \<noteq> DOM_CMP_A_DOMINATES_B \<and> cmp_results ! next \<noteq> DOM_CMP_A_B_EQUAL
         then compact_p k cmp_results no_points frame
                (if prev < next
                 then h[frame ! prev := copy_row k (h ! (frame ! next)) (h ! (frame ! prev))]
                 else h)
                (Suc prev) (Suc next)
         else compact_p k cmp_results no_points frame h prev (Suc next))
      else (h, prev))"
  by pat_completeness auto
termination
  by (relation "measure (\<lambda>(k, cmp_results, no_points, frame, h, prev, next). no_points - next)") auto

definition limit_step_p :: "nat \<Rightarrow> nat list \<Rightarrow> nat \<Rightarrow> nat list \<Rightarrow> nat \<Rightarrow> point list \<times> nat
    \<Rightarrow> point list \<times> nat" where
  "limit_step_p k points p_idx frame idx state =
     (case state of (h, no_points) \<Rightarrow>
        let h1 = h[frame ! no_points :=
                     limit_row k (h ! (points ! idx)) (h ! (points ! p_idx)) (h ! (frame ! no_points))];
            s = h1 ! (frame ! no_points)
        in (case dom_scan k s (map (\<lambda>a. h1 ! a) (take no_points frame)) of (cmp_results, keep_s) \<Rightarrow>
              if keep_s then
                (case compact_p k cmp_results no_points frame h1 0 0 of (h2, prev) \<Rightarrow>
                   ((if prev < no_points
                     then h2[frame ! prev := copy_row k (h2 ! (frame ! no_points)) (h2 ! (frame ! prev))]
                     else h2),
                    prev + 1))
              else (h1, no_points)))"

definition limitset_p :: "wfg_mem \<Rightarrow> nat \<Rightarrow> nat \<Rightarrow> nat \<Rightarrow> nat \<Rightarrow> error + wfg_mem" where
  "limitset_p st points n_points p_idx rec_level =
     (if \<not> pointers_valid st \<or> \<not> limitset_in_range (view st) points n_points p_idx rec_level
      then Inl Out_of_range
      else
        (case fold (limit_step_p (m_current_slice_p st) (m_frames_p st ! points) p_idx
                      (m_frames_p st ! rec_level))
                [Suc p_idx..<n_points] (mem st, 0) of
          (h, no_points) \<Rightarrow>
            Inr (st\<lparr>mem := h,
                    m_frames_size_p := (m_frames_size_p st)[rec_level := no_points]\<rparr>)))"

text \<open>Line 208: \<^verbatim>\<open>std::sort\<close> permutes the row addresses of the frame; no row is written.\<close>

definition sort_frame_p :: "wfg_mem \<Rightarrow> nat \<Rightarrow> nat \<Rightarrow> wfg_mem" where
  "sort_frame_p st points n_points =
     st\<lparr>m_frames_p := (m_frames_p st)[points :=
            std_sort (\<lambda>a b. cmp_func_from (m_current_slice_p st) (mem st ! a) (mem st ! b))
              (take n_points (m_frames_p st ! points))
            @ drop n_points (m_frames_p st ! points)]\<rparr>"

text \<open>Lines 223-231: the rows of the new frame are new arrays.\<close>

definition new_frame_p :: "wfg_mem \<Rightarrow> nat \<Rightarrow> error + wfg_mem" where
  "new_frame_p st rec_level =
     (if rec_level \<ge> m_n_frames_p st then
        (if m_n_frames_p st < length (m_frames_p st) \<and> m_n_frames_p st < length (m_frames_size_p st)
         then
           Inr (st\<lparr>mem := mem st @ replicate (m_max_points_p st) (replicate (m_current_slice_p st) 0),
                   m_frames_p := (m_frames_p st)[m_n_frames_p st :=
                       [length (mem st)..<length (mem st) + m_max_points_p st]],
                   m_frames_size_p := (m_frames_size_p st)[m_n_frames_p st := 0],
                   m_n_frames_p := m_n_frames_p st + 1\<rparr>)
         else Inl Out_of_range)
      else Inr st)"

fun hv_loop_p :: "(wfg_mem \<Rightarrow> nat \<Rightarrow> error + real \<times> wfg_mem) \<Rightarrow> nat \<Rightarrow> wfg_mem \<Rightarrow> nat list \<Rightarrow> real
    \<Rightarrow> error + real \<times> wfg_mem" where
  "hv_loop_p ex points st [] H = Inr (H, st)"
| "hv_loop_p ex points st (i # is) H =
     (case ex st i of
        Inl e \<Rightarrow> Inl e
      | Inr (v, st') \<Rightarrow>
          hv_loop_p ex points st' is
            (H + \<bar>(m_frames (view st) ! points ! i ! m_current_slice_p st
                     - m_refpoint (view st) ! m_current_slice_p st) * v\<bar>))"

text \<open>
  \<open>compute_hv\<close> (lines 169-218) and \<open>exclusive_hv\<close> (lines 221-244). What they read they read
  through the pointers: \<open>m_frames (view st) ! points ! i\<close> is the row the pointer at index \<open>i\<close>
  of the frame points to, \<open>m_refpoint (view st)\<close> the engine's copy of the reference point.
  The direct algorithms, which are not among the sources, are handed the rows of a frame
  and that copy, and are taken as functions of what these arrays hold.
\<close>

fun compute_hv_p :: "nat \<Rightarrow> direct_algorithms \<Rightarrow> wfg_mem \<Rightarrow> nat \<Rightarrow> nat \<Rightarrow> nat
      \<Rightarrow> error + real \<times> wfg_mem"
  and exclusive_hv_p :: "nat \<Rightarrow> direct_algorithms \<Rightarrow> wfg_mem \<Rightarrow> nat \<Rightarrow> nat \<Rightarrow> nat \<Rightarrow> nat
      \<Rightarrow> error + real \<times> wfg_mem"
where
  "compute_hv_p 0 d st points n_points rec_level = Inl Out_of_fuel"
| "compute_hv_p (Suc fuel) d st points n_points rec_level =
     (if \<not> pointers_valid st \<or> \<not> rows_in_range (view st) points n_points then Inl Out_of_range
      else if n_points = 1 then
        Inr (volume_between (m_frames (view st) ! points ! 0) (m_refpoint (view st))
               (m_current_slice_p st), st)
      else if n_points = 2 then
        (let hv = volume_between (m_frames (view st) ! points ! 0) (m_refpoint (view st))
                    (m_current_slice_p st)
                  + volume_between (m_frames (view st) ! points ! 1) (m_refpoint (view st))
                      (m_current_slice_p st);
             isect = prod_list (map (\<lambda>i. m_refpoint (view st) ! i
                        - max (m_frames (view st) ! points ! 0 ! i)
                              (m_frames (view st) ! points ! 1 ! i))
                      [0..<m_current_slice_p st])
         in Inr (hv - isect, st))
      else if m_current_slice_p st = m_stop_dimension_p st then
        (if m_stop_dimension_p st = 2 then
           Inr (hv2d_compute d (m_frames (view st) ! points) n_points (m_refpoint (view st)), st)
         else
           Inr (hypervolume_compute d
                  (map (take (m_current_slice_p st)) (take n_points (m_frames (view st) ! points)))
                  (take (m_current_slice_p st) (m_refpoint (view st))), st))
      else
        (let st1 = sort_frame_p st points n_points
         in if m_current_slice_p st1 = 0 then
              (if n_points = 0 then Inr (0, st1) else Inl Out_of_range)
            else
              (case hv_loop_p (\<lambda>s i. exclusive_hv_p fuel d s points n_points i rec_level) points
                      (st1\<lparr>m_current_slice_p := m_current_slice_p st1 - 1\<rparr>) [0..<n_points] 0 of
                 Inl e \<Rightarrow> Inl e
               | Inr (H, st2) \<Rightarrow> Inr (H, st2\<lparr>m_current_slice_p := m_current_slice_p st2 + 1\<rparr>))))"
| "exclusive_hv_p 0 d st points n_points p_idx rec_level = Inl Out_of_fuel"
| "exclusive_hv_p (Suc fuel) d st points n_points p_idx rec_level =
     (case new_frame_p st rec_level of
        Inl e \<Rightarrow> Inl e
      | Inr st1 \<Rightarrow>
          (case limitset_p st1 points n_points p_idx rec_level of
             Inl e \<Rightarrow> Inl e
           | Inr st2 \<Rightarrow>
               if \<not> exclusive_in_range (view st2) points p_idx rec_level then Inl Out_of_range
               else
                 (let H = volume_between (m_frames (view st2) ! points ! p_idx)
                            (m_refpoint (view st2)) (m_current_slice_p st2)
                  in if m_frames_size_p st2 ! rec_level = 1 then
                       Inr (H - volume_between (m_frames (view st2) ! rec_level ! 0)
                                  (m_refpoint (view st2)) (m_current_slice_p st2), st2)
                     else if m_frames_size_p st2 ! rec_level > 1 then
                       (case compute_hv_p fuel d st2 rec_level (m_frames_size_p st2 ! rec_level)
                               (rec_level + 1) of
                          Inl e \<Rightarrow> Inl e
                        | Inr (h, st3) \<Rightarrow> Inr (H - h, st3))
                     else Inr (H, st2))))"

text \<open>
  \<open>compute\<close> (lines 66-111). The caller's points and reference point are arrays of \<open>mem\<close>,
  given by their addresses. Lines 71-74 and 82-88 allocate the engine's copy of the
  reference point and the rows of the frame at index 0 and fill them from the caller's
  arrays. The result is the hypervolume and the engine, with the memory, as the call
  leaves them.
\<close>

definition start_state_p :: "wfg_mem \<Rightarrow> nat list \<Rightarrow> nat \<Rightarrow> wfg_mem" where
  "start_state_p st points r_point =
     (let max_points = length points; max_dim = length (mem st ! r_point);
          h1 = mem st @ [map (\<lambda>d_idx. mem st ! r_point ! d_idx) [0..<max_dim]];
          h2 = h1 @ map (\<lambda>p. map (\<lambda>d_idx. mem st ! p ! d_idx) [0..<max_dim]) points
      in st\<lparr>mem := h2, m_max_points_p := max_points, m_max_dim_p := max_dim,
            m_refpoint_p := length (mem st),
            m_frames_p := (replicate max_dim [])[0 := [length h1..<length h1 + max_points]],
            m_frames_size_p := (replicate max_dim 0)[0 := max_points],
            m_n_frames_p := 1, m_current_slice_p := max_dim\<rparr>)"

definition compute_p :: "nat \<Rightarrow> direct_algorithms \<Rightarrow> wfg_mem \<Rightarrow> nat list \<Rightarrow> nat
    \<Rightarrow> error + real \<times> wfg_mem" where
  "compute_p fuel d st points r_point =
     (if \<not> (r_point < length (mem st) \<and> list_all (\<lambda>p. p < length (mem st)) points)
      then Inl Out_of_range
      else if length (mem st ! r_point) = 0 \<or>
              \<not> list_all (\<lambda>p. length (mem st ! r_point) \<le> length (mem st ! p)) points
      then Inl Out_of_range
      else
        (let st1 = start_state_p st points r_point in
         compute_hv_p fuel d st1 0 (m_frames_size_p st1 ! 0) 1))"

text \<open>
  \<open>owned b st\<close>: the engine's pointers are addresses from \<open>b\<close> on. With \<open>b\<close> the size of the
  memory when \<open>compute\<close> is called, these are the arrays the call has allocated.
\<close>

definition owned :: "nat \<Rightarrow> wfg_mem \<Rightarrow> bool" where
  "owned b st \<longleftrightarrow>
     b \<le> m_refpoint_p st \<and> list_all (list_all (\<lambda>a. b \<le> a)) (m_frames_p st) \<and>
     b \<le> length (mem st)"

text \<open>
  \<open>frames_at h frames\<close>: the rows the addresses of \<open>frames\<close> point to in the memory \<open>h\<close>.
  \<open>layout\<close>: the pointers of the engine are valid and no two of them point to the same
  array.
\<close>

definition frames_at :: "point list \<Rightarrow> nat list list \<Rightarrow> frame list" where
  "frames_at h frames = map (map (\<lambda>a. h ! a)) frames"

definition layout :: "wfg_mem \<Rightarrow> bool" where
  "layout st \<longleftrightarrow>
     pointers_valid st \<and> distinct (concat (m_frames_p st)) \<and>
     m_refpoint_p st \<notin> set (concat (m_frames_p st))"

text \<open>
  What a result over the memory is to a result over the arrays: the same error, or the
  same value with an engine that, its pointers replaced by the arrays, is the other.
\<close>

definition same_result :: "error + real \<times> wfg_mem \<Rightarrow> error + real \<times> wfg \<Rightarrow> bool" where
  "same_result r_p r =
     (case r_p of
        Inl e \<Rightarrow> r = Inl e
      | Inr (v, st') \<Rightarrow> r = Inr (v, view st') \<and> layout st')"

text \<open>
  An engine built for the stop dimension 2, in a memory that holds four points at the
  addresses 0 to 3 and a reference point at the address 4.
\<close>

definition engine2_p :: "point list \<Rightarrow> wfg_mem" where
  "engine2_p h = \<lparr>mem = h, m_current_slice_p = 0, m_stop_dimension_p = 2, m_refpoint_p = 0,
                  m_frames_p = [], m_frames_size_p = [], m_n_frames_p = 0,
                  m_max_points_p = 0, m_max_dim_p = 0\<rparr>"

definition mem3 :: "point list" where
  "mem3 = pts3 @ [ref3]"

section \<open>The bounds of the problem base class (src_new/problem/base.h)\<close>

text \<open>
  The members that hold or guard the bounds. The two caches and the call counter play no
  part in them and are left out. A range of iterators and a raw array are the list of
  their elements.

  The bounds are compared and copied, never computed with, so that rounding plays no part;
  what matters is how two values of type \<^verbatim>\<open>double\<close> compare. Here such a value is a real
  number, one of the two infinities or NaN, compared as IEEE 754 compares them: every
  comparison with NaN is false.
\<close>

datatype double = NaN | MInf | Fin real | PInf

fun double_less :: "double \<Rightarrow> double \<Rightarrow> bool" where
  "double_less (Fin x) (Fin y) = (x < y)"
| "double_less (Fin x) PInf = True"
| "double_less MInf (Fin y) = True"
| "double_less MInf PInf = True"
| "double_less a b = False"


fun double_le :: "double \<Rightarrow> double \<Rightarrow> bool" where
  "double_le NaN b = False"
| "double_le a NaN = False"
| "double_le a b = (\<not> double_less b a)"

record problem_base =
  m_i_dimension :: nat
  m_f_dimension :: nat
  m_c_dimension :: nat
  m_ic_dimension :: nat
  m_lb :: "double list"
  m_ub :: "double list"
  m_tmp_f1 :: "double list"
  m_tmp_f2 :: "double list"



text \<open>
  Modelled from the spec: \<^verbatim>\<open>base::normalise_bounds\<close> is defined in problem/base.cpp, which is
  not among the sources, and the specification leaves the problem interface out. The model
  follows the documentation of the class (base.h, lines 70-78): the bounds of the integer
  part, the last \<open>m_i_dimension\<close> components, are set to the extremes of the range from
  -32767 to 32767 where they leave it, and rounded to the nearest integer. The
  documentation says nothing of a NaN there; the model leaves it as it is.
\<close>

fun clamp :: "double \<Rightarrow> real" where
  "clamp (Fin x) = max (- 32767) (min 32767 x)"
| "clamp MInf = - 32767"
| "clamp PInf = 32767"
| "clamp NaN = 0"

definition normalise_value :: "double \<Rightarrow> double" where
  "normalise_value x = (if x = NaN then NaN else Fin (of_int (round (clamp x))))"

definition normalise_part :: "nat \<Rightarrow> double list \<Rightarrow> double list" where
  "normalise_part i xs =
     take (length xs - i) xs @ map normalise_value (drop (length xs - i) xs)"




















text \<open>
  The invariant of the bounds: one length, not zero, and each lower bound smaller than or
  equal to its upper bound, as doubles compare.
\<close>

definition bounds_inv :: "problem_base \<Rightarrow> bool" where
  "bounds_inv p \<longleftrightarrow>
     length (m_lb p) = length (m_ub p) \<and> 0 < length (m_lb p) \<and>
     list_all (\<lambda>i. double_le (m_lb p ! i) (m_ub p ! i)) [0..<length (m_lb p)]"






section \<open>Properties\<close>


lemmas compute_hv_Suc = compute_hv.simps(2)

lemmas exclusive_hv_Suc = exclusive_hv.simps(2)

declare compute_hv.simps(2) [simp del]

declare exclusive_hv.simps(2) [simp del]

subsection \<open>The state compute starts from\<close>

text \<open>The engine of the examples is the one the constructor builds for the stop dimension 2.\<close>

lemma engine2_constructed: "wfg_new 2 = Inr engine2"
  by (simp add: wfg_new_def engine2_def)

lemma start_state_fields:
  "m_current_slice (start_state st points r_point) = length r_point"
  "m_stop_dimension (start_state st points r_point) = m_stop_dimension st"
  "m_refpoint (start_state st points r_point) = r_point"
  "m_n_frames (start_state st points r_point) = 1"
  "m_max_points (start_state st points r_point) = length points"
  "m_max_dim (start_state st points r_point) = length r_point"
  "length (m_frames (start_state st points r_point)) = length r_point"
  "length (m_frames_size (start_state st points r_point)) = length r_point"
  by (simp_all add: start_state_def Let_def map_nth)

lemma start_state_frame0:
  assumes "r_point \<noteq> []"
  shows "m_frames (start_state st points r_point) ! 0 =
           map (\<lambda>p. map (\<lambda>d_idx. p ! d_idx) [0..<length r_point]) points"
    and "m_frames_size (start_state st points r_point) ! 0 = length points"
  using assms by (simp_all add: start_state_def Let_def)

lemma rows_in_range_start:
  assumes "r_point \<noteq> []"
  shows "rows_in_range (start_state st points r_point) 0 (length points)"
  using assms
  by (simp add: rows_in_range_def start_state_fields start_state_frame0 list_all_iff)

declare compact.simps [simp del]

subsection \<open>The branches of compute_hv and exclusive_hv\<close>

lemma compute_hv_out_of_range:
  "\<not> rows_in_range st points n \<Longrightarrow> compute_hv (Suc fuel) d st points n rl = Inl Out_of_range"
  by (simp add: compute_hv_Suc)

lemma compute_hv_one:
  "rows_in_range st points n \<Longrightarrow> n = 1 \<Longrightarrow>
   compute_hv (Suc fuel) d st points n rl =
     Inr (volume_between (m_frames st ! points ! 0) (m_refpoint st) (m_current_slice st), st)"
  by (simp add: compute_hv_Suc)

lemma compute_hv_two:
  "rows_in_range st points n \<Longrightarrow> n = 2 \<Longrightarrow>
   compute_hv (Suc fuel) d st points n rl =
     Inr (volume_between (m_frames st ! points ! 0) (m_refpoint st) (m_current_slice st)
          + volume_between (m_frames st ! points ! 1) (m_refpoint st) (m_current_slice st)
          - prod_list (map (\<lambda>i. m_refpoint st ! i
                - max (m_frames st ! points ! 0 ! i) (m_frames st ! points ! 1 ! i))
              [0..<m_current_slice st]), st)"
  by (simp add: compute_hv_Suc Let_def)

lemma compute_hv_stop:
  "rows_in_range st points n \<Longrightarrow> n \<noteq> 1 \<Longrightarrow> n \<noteq> 2 \<Longrightarrow>
   m_current_slice st = m_stop_dimension st \<Longrightarrow>
   compute_hv (Suc fuel) d st points n rl =
     (if m_stop_dimension st = 2 then
        Inr (hv2d_compute d (m_frames st ! points) n (m_refpoint st), st)
      else
        Inr (hypervolume_compute d
               (map (take (m_current_slice st)) (take n (m_frames st ! points)))
               (take (m_current_slice st) (m_refpoint st)), st))"
  by (simp add: compute_hv_Suc)

lemma compute_hv_zero_empty:
  "rows_in_range st points n \<Longrightarrow> n = 0 \<Longrightarrow>
   m_current_slice st \<noteq> m_stop_dimension st \<Longrightarrow> m_current_slice st = 0 \<Longrightarrow>
   compute_hv (Suc fuel) d st points n rl = Inr (0, sort_frame st points n)"
  by (simp add: compute_hv_Suc Let_def sort_frame_def)

lemma compute_hv_zero_read:
  "rows_in_range st points n \<Longrightarrow> n \<noteq> 0 \<Longrightarrow> n \<noteq> 1 \<Longrightarrow> n \<noteq> 2 \<Longrightarrow>
   m_current_slice st \<noteq> m_stop_dimension st \<Longrightarrow> m_current_slice st = 0 \<Longrightarrow>
   compute_hv (Suc fuel) d st points n rl = Inl Out_of_range"
  by (simp add: compute_hv_Suc Let_def sort_frame_def)

lemma compute_hv_recursive:
  "rows_in_range st points n \<Longrightarrow> n \<noteq> 1 \<Longrightarrow> n \<noteq> 2 \<Longrightarrow>
   m_current_slice st \<noteq> m_stop_dimension st \<Longrightarrow> 0 < m_current_slice st \<Longrightarrow>
   compute_hv (Suc fuel) d st points n rl =
     (case hv_loop (\<lambda>s i. exclusive_hv fuel d s points n i rl) points
             (sorted_and_sliced st points n) [0..<n] 0 of
        Inl e \<Rightarrow> Inl e
      | Inr (H, st2) \<Rightarrow> Inr (H, st2\<lparr>m_current_slice := m_current_slice st2 + 1\<rparr>))"
  by (simp add: compute_hv_Suc Let_def sort_frame_def sorted_and_sliced_def)

lemma compute_hv_cases [case_names range one two stop zero_empty zero_read recursive]:
  assumes "\<not> rows_in_range st points n \<Longrightarrow> P"
    and "rows_in_range st points n \<Longrightarrow> n = 1 \<Longrightarrow> P"
    and "rows_in_range st points n \<Longrightarrow> n = 2 \<Longrightarrow> P"
    and "rows_in_range st points n \<Longrightarrow> n \<noteq> 1 \<Longrightarrow> n \<noteq> 2 \<Longrightarrow>
         m_current_slice st = m_stop_dimension st \<Longrightarrow> P"
    and "rows_in_range st points n \<Longrightarrow> n = 0 \<Longrightarrow>
         m_current_slice st \<noteq> m_stop_dimension st \<Longrightarrow> m_current_slice st = 0 \<Longrightarrow> P"
    and "rows_in_range st points n \<Longrightarrow> n \<noteq> 0 \<Longrightarrow> n \<noteq> 1 \<Longrightarrow> n \<noteq> 2 \<Longrightarrow>
         m_current_slice st \<noteq> m_stop_dimension st \<Longrightarrow> m_current_slice st = 0 \<Longrightarrow> P"
    and "rows_in_range st points n \<Longrightarrow> n \<noteq> 1 \<Longrightarrow> n \<noteq> 2 \<Longrightarrow>
         m_current_slice st \<noteq> m_stop_dimension st \<Longrightarrow> 0 < m_current_slice st \<Longrightarrow> P"
  shows P
  using assms by blast

lemma exclusive_hv_new_frame_error:
  "new_frame st rl = Inl e \<Longrightarrow> exclusive_hv (Suc fuel) d st points n p rl = Inl e"
  by (simp add: exclusive_hv_Suc)

lemma exclusive_hv_limitset_error:
  "new_frame st rl = Inr st1 \<Longrightarrow> limitset st1 points n p rl = Inl e \<Longrightarrow>
   exclusive_hv (Suc fuel) d st points n p rl = Inl e"
  by (simp add: exclusive_hv_Suc)

lemma exclusive_hv_out_of_range:
  "new_frame st rl = Inr st1 \<Longrightarrow> limitset st1 points n p rl = Inr st2 \<Longrightarrow>
   \<not> exclusive_in_range st2 points p rl \<Longrightarrow>
   exclusive_hv (Suc fuel) d st points n p rl = Inl Out_of_range"
  by (simp add: exclusive_hv_Suc)

lemma exclusive_hv_limited:
  "new_frame st rl = Inr st1 \<Longrightarrow> limitset st1 points n p rl = Inr st2 \<Longrightarrow>
   exclusive_in_range st2 points p rl \<Longrightarrow>
   exclusive_hv (Suc fuel) d st points n p rl =
     (if m_frames_size st2 ! rl = 1 then
        Inr (volume_between (m_frames st2 ! points ! p) (m_refpoint st2) (m_current_slice st2)
             - volume_between (m_frames st2 ! rl ! 0) (m_refpoint st2) (m_current_slice st2), st2)
      else if m_frames_size st2 ! rl > 1 then
        (case compute_hv fuel d st2 rl (m_frames_size st2 ! rl) (rl + 1) of
           Inl e \<Rightarrow> Inl e
         | Inr (h, st3) \<Rightarrow>
             Inr (volume_between (m_frames st2 ! points ! p) (m_refpoint st2)
                    (m_current_slice st2) - h, st3))
      else
        Inr (volume_between (m_frames st2 ! points ! p) (m_refpoint st2)
               (m_current_slice st2), st2))"
  by (simp add: exclusive_hv_Suc Let_def)

lemma new_frame_error: "new_frame st rl = Inl e \<Longrightarrow> e = Out_of_range"
  by (auto simp: new_frame_def split: if_splits)

lemma limitset_error: "limitset st points n p rl = Inl e \<Longrightarrow> e = Out_of_range"
  by (auto simp: limitset_def split: if_splits prod.splits)

lemma volume_of_Inr: "volume_of r = Inr v \<Longrightarrow> \<exists>x. r = Inr (v, x)"
  by (auto simp: volume_of_def split: sum.splits)

lemma volume_of_simps [simp]:
  "volume_of (Inl e) = Inl e" "volume_of (Inr (v, x)) = Inr v"
  by (simp_all add: volume_of_def)

subsection \<open>What the recursion leaves as it was\<close>

lemma new_frame_fixed: "new_frame st rec_level = Inr st1 \<Longrightarrow> fixed_part st1 = fixed_part st"
  by (auto simp: new_frame_def fixed_part_def split: if_splits)

lemma length_compact: "length (fst (compact k cs no fr prev next)) = length fr"
proof (induction k cs no fr prev "next" rule: compact.induct)
  case (1 k cs no fr prev "next")
  show ?case
    using 1 by (subst compact.simps) (simp)
qed

lemma limit_step_update:
  "\<exists>fr'. fst (limit_step k points p_idx rec_level i (frames, no)) = frames[rec_level := fr']"
  by (auto simp add: limit_step_def Let_def split: prod.splits)

lemma fold_limit_step_update:
  "\<exists>fr'. fst (fold (limit_step k points p_idx rec_level) is (frames, no)) = frames[rec_level := fr']"
proof (induction "is" arbitrary: frames no)
  case Nil
  have "frames = frames[rec_level := frames ! rec_level]" by simp
  then show ?case by (metis fold_simps(1) fst_conv)
next
  case (Cons i "is")
  obtain frames' no' where st: "limit_step k points p_idx rec_level i (frames, no) = (frames', no')"
    by (cases "limit_step k points p_idx rec_level i (frames, no)")
  obtain fr1 where f1: "frames' = frames[rec_level := fr1]"
    using limit_step_update[of k points p_idx rec_level i frames no] st by auto
  obtain fr2 where "fst (fold (limit_step k points p_idx rec_level) is (frames', no')) = frames'[rec_level := fr2]"
    using Cons.IH[of frames' no'] by blast
  then have "fst (fold (limit_step k points p_idx rec_level) (i # is) (frames, no)) = frames[rec_level := fr2]"
    using st f1 by simp
  then show ?case by blast
qed

lemma limitset_frames:
  assumes "limitset st points n_points p_idx rec_level = Inr st2"
  shows "\<exists>fr'. m_frames st2 = (m_frames st)[rec_level := fr']"
proof -
  obtain frames no where f: "fold (limit_step (m_current_slice st) points p_idx rec_level)
                [Suc p_idx..<n_points] (m_frames st, 0) = (frames, no)"
    by (cases "fold (limit_step (m_current_slice st) points p_idx rec_level)
                [Suc p_idx..<n_points] (m_frames st, 0)")
  obtain fr' where "frames = (m_frames st)[rec_level := fr']"
    using fold_limit_step_update[of "m_current_slice st" points p_idx rec_level "[Suc p_idx..<n_points]" "m_frames st" 0] f
    by auto
  then show ?thesis using assms f
    by (auto simp: limitset_def split: if_splits)
qed

lemma limitset_fixed:
  assumes "limitset st points n_points p_idx rec_level = Inr st2"
  shows "fixed_part st2 = fixed_part st"
proof -
  obtain fr' where "m_frames st2 = (m_frames st)[rec_level := fr']"
    using limitset_frames[OF assms] by blast
  then show ?thesis using assms
    by (auto simp: limitset_def fixed_part_def split: if_splits prod.splits)
qed

lemma limitset_in_range_if: "limitset st points n p rl = Inr st2 \<Longrightarrow> limitset_in_range st points n p rl"
  by (auto simp: limitset_def split: if_splits)

lemma hv_loop_preserves:
  assumes "\<And>s i v s'. ex s i = Inr (v, s') \<Longrightarrow> f s' = f s"
    and "hv_loop ex points st is H = Inr (H', st')"
  shows "f st' = f st"
  using assms(2)
proof (induction "is" arbitrary: st H)
  case Nil
  then show ?case by simp
next
  case (Cons i "is")
  then obtain v s1 where e: "ex st i = Inr (v, s1)"
    by (auto split: sum.splits)
  with Cons.prems have "hv_loop ex points s1 is
      (H + \<bar>(m_frames st ! points ! i ! m_current_slice st - m_refpoint st ! m_current_slice st) * v\<bar>) = Inr (H', st')"
    by simp
  from Cons.IH[OF this] assms(1)[OF e] show ?case by simp
qed

lemma hv_loop_error:
  assumes "hv_loop ex points st is H = Inl e"
  shows "\<exists>s i. ex s i = Inl e"
  using assms
proof (induction "is" arbitrary: st H)
  case Nil
  then show ?case by simp
next
  case (Cons i "is")
  show ?case
  proof (cases "ex st i")
    case (Inl e')
    then show ?thesis using Cons.prems by auto
  next
    case (Inr r)
    then show ?thesis using Cons by (cases r) auto
  qed
qed

lemma sort_frame_fixed: "fixed_part (sort_frame st points n) = fixed_part st"
  by (simp add: sort_frame_def fixed_part_def)

lemma sorted_and_sliced_fixed:
  "fixed_part (sorted_and_sliced st points n) =
     (m_current_slice st - 1, m_stop_dimension st, m_refpoint st, m_max_points st,
      m_max_dim st, length (m_frames st), length (m_frames_size st))"
  by (simp add: sorted_and_sliced_def sort_frame_def fixed_part_def)

lemma fixed_part_preserved:
  "(\<forall>d st points n rl v st'. compute_hv fuel d st points n rl = Inr (v, st') \<longrightarrow>
        fixed_part st' = fixed_part st) \<and>
   (\<forall>d st points n p rl v st'. exclusive_hv fuel d st points n p rl = Inr (v, st') \<longrightarrow>
        fixed_part st' = fixed_part st)"
proof (induction fuel)
  case 0
  then show ?case by simp
next
  case (Suc fuel)
  have ex: "\<And>d st points n p rl v st'. exclusive_hv fuel d st points n p rl = Inr (v, st') \<Longrightarrow>
        fixed_part st' = fixed_part st"
    using Suc by blast
  have ch: "\<And>d st points n rl v st'. compute_hv fuel d st points n rl = Inr (v, st') \<Longrightarrow>
        fixed_part st' = fixed_part st"
    using Suc by blast
  have A: "fixed_part st' = fixed_part st"
    if c: "compute_hv (Suc fuel) d st points n rl = Inr (v, st')" for d st points n rl v st'
  proof (cases rule: compute_hv_cases[of st points n])
    case range
    then show ?thesis using c by (simp add: compute_hv_out_of_range)
  next
    case one
    then show ?thesis using c by (simp add: compute_hv_one)
  next
    case two
    then show ?thesis using c by (simp add: compute_hv_two)
  next
    case stop
    then show ?thesis using c by (simp add: compute_hv_stop split: if_splits)
  next
    case zero_empty
    then show ?thesis using c by (auto simp add: compute_hv_zero_empty sort_frame_fixed)
  next
    case zero_read
    then show ?thesis using c by (simp add: compute_hv_zero_read)
  next
    case recursive
    let ?l = "hv_loop (\<lambda>s i. exclusive_hv fuel d s points n i rl) points
             (sorted_and_sliced st points n) [0..<n] 0"
    from c recursive obtain H st2 where l: "?l = Inr (H, st2)"
      and s: "st' = st2\<lparr>m_current_slice := m_current_slice st2 + 1\<rparr>"
      by (auto simp: compute_hv_recursive split: sum.splits)
    have "fixed_part st2 = fixed_part (sorted_and_sliced st points n)"
      using hv_loop_preserves[where f = fixed_part, OF _ l] ex by blast
    then show ?thesis using s recursive(5)
      by (simp add: sorted_and_sliced_fixed) (simp add: fixed_part_def)
  qed
  have B: "fixed_part st' = fixed_part st"
    if c: "exclusive_hv (Suc fuel) d st points n p rl = Inr (v, st')" for d st points n p rl v st'
  proof -
    obtain st1 st2 where n: "new_frame st rl = Inr st1" and l: "limitset st1 points n p rl = Inr st2"
      using c unfolding exclusive_hv_Suc by (auto split: sum.splits)
    have f2: "fixed_part st2 = fixed_part st"
      using new_frame_fixed[OF n] limitset_fixed[OF l] by simp
    have e: "exclusive_in_range st2 points p rl"
      using c n l exclusive_hv_out_of_range[OF n l] by force
    consider (same) "st' = st2"
      | (rec) h where "compute_hv fuel d st2 rl (m_frames_size st2 ! rl) (rl + 1) = Inr (h, st')"
      using c unfolding exclusive_hv_limited[OF n l e]
      by (auto split: if_splits sum.splits)
    then show ?thesis
    proof cases
      case same
      then show ?thesis using f2 by simp
    next
      case rec
      then show ?thesis using ch f2 by metis
    qed
  qed
  show ?case using A B by blast
qed

lemma recursion_errors:
  "(\<forall>d st points n rl e. compute_hv fuel d st points n rl = Inl e \<longrightarrow>
        e = Out_of_range \<or> e = Out_of_fuel) \<and>
   (\<forall>d st points n p rl e. exclusive_hv fuel d st points n p rl = Inl e \<longrightarrow>
        e = Out_of_range \<or> e = Out_of_fuel)"
proof (induction fuel)
  case 0
  then show ?case by simp
next
  case (Suc fuel)
  have ex: "\<And>d st points n p rl e. exclusive_hv fuel d st points n p rl = Inl e \<Longrightarrow>
        e = Out_of_range \<or> e = Out_of_fuel"
    using Suc by blast
  have ch: "\<And>d st points n rl e. compute_hv fuel d st points n rl = Inl e \<Longrightarrow>
        e = Out_of_range \<or> e = Out_of_fuel"
    using Suc by blast
  have A: "e = Out_of_range \<or> e = Out_of_fuel"
    if c: "compute_hv (Suc fuel) d st points n rl = Inl e" for d st points n rl e
  proof (cases rule: compute_hv_cases[of st points n])
    case range
    then show ?thesis using c by (simp add: compute_hv_out_of_range)
  next
    case one
    then show ?thesis using c by (simp add: compute_hv_one)
  next
    case two
    then show ?thesis using c by (simp add: compute_hv_two)
  next
    case stop
    then show ?thesis using c by (simp add: compute_hv_stop split: if_splits)
  next
    case zero_empty
    then show ?thesis using c by (simp add: compute_hv_zero_empty)
  next
    case zero_read
    then show ?thesis using c by (simp add: compute_hv_zero_read)
  next
    case recursive
    let ?l = "hv_loop (\<lambda>s i. exclusive_hv fuel d s points n i rl) points
             (sorted_and_sliced st points n) [0..<n] 0"
    from c recursive have "?l = Inl e"
      by (auto simp: compute_hv_recursive split: sum.splits)
    from hv_loop_error[OF this] ex show ?thesis by blast
  qed
  have B: "e = Out_of_range \<or> e = Out_of_fuel"
    if c: "exclusive_hv (Suc fuel) d st points n p rl = Inl e" for d st points n p rl e
  proof (cases "new_frame st rl")
    case (Inl e')
    then show ?thesis using c new_frame_error[OF Inl] exclusive_hv_new_frame_error[OF Inl] by simp
  next
    case n: (Inr st1)
    show ?thesis
    proof (cases "limitset st1 points n p rl")
      case (Inl e')
      then show ?thesis using c limitset_error[OF Inl] exclusive_hv_limitset_error[OF n Inl] by simp
    next
      case l: (Inr st2)
      show ?thesis
      proof (cases "exclusive_in_range st2 points p rl")
        case False
        then show ?thesis using c exclusive_hv_out_of_range[OF n l] by simp
      next
        case True
        have "compute_hv fuel d st2 rl (m_frames_size st2 ! rl) (rl + 1) = Inl e"
          using c unfolding exclusive_hv_limited[OF n l True]
          by (auto split: if_splits sum.splits)
        then show ?thesis using ch by blast
      qed
    qed
  qed
  show ?case using A B by blast
qed

subsection \<open>The validation of the reference point\<close>

lemma assert_minimisation_violation:
  assumes "p \<in> set points" "i < length p" "i < length r_point" "r_point ! i < p ! i"
  shows "assert_minimisation points r_point = Inl Value_error"
proof -
  have "(p ! i, r_point ! i) \<in> set (zip p r_point)"
    using assms(2,3) by (auto simp: set_zip)
  then have "\<not> list_all (\<lambda>(x, r). x \<le> r) (zip p r_point)"
    using assms(4) by (force simp: list_all_iff)
  then show ?thesis using assms(1)
    by (auto simp: assert_minimisation_def list_all_iff)
qed

lemma compute_hv_no_value_error: "compute_hv fuel d st points n rl \<noteq> Inl Value_error"
  using recursion_errors[of fuel] by (metis error.distinct(3) error.distinct(5))

lemma exclusive_hv_no_value_error: "exclusive_hv fuel d st points n p rl \<noteq> Inl Value_error"
  using recursion_errors[of fuel] by (metis error.distinct(3) error.distinct(5))

subsection \<open>The bounds of a problem\<close>


lemma double_le_refl: "a \<noteq> NaN \<Longrightarrow> double_le a a"
  by (cases a) simp_all











lemma length_normalise_part [simp]: "length (normalise_part k xs) = length xs"
  by (simp add: normalise_part_def)






lemma bounds_inv_tmp [simp]:
  "bounds_inv (p\<lparr>m_tmp_f1 := a, m_tmp_f2 := b\<rparr>) = bounds_inv p"
  by (simp add: bounds_inv_def)











subsection \<open>The frames below the one a call works on\<close>

lemma new_frame_take:
  "new_frame st rl = Inr st1 \<Longrightarrow> rl < m_n_frames st1 \<Longrightarrow>
   take rl (m_frames st1) = take rl (m_frames st)"
  by (auto simp: new_frame_def split: if_splits)

lemma limitset_take:
  assumes "limitset st points n p rl = Inr st2"
  shows "take rl (m_frames st2) = take rl (m_frames st)"
  using limitset_frames[OF assms] by auto

lemma sorted_and_sliced_take:
  "take points (m_frames (sorted_and_sliced st points n)) = take points (m_frames st)"
  by (simp add: sorted_and_sliced_def sort_frame_def)

lemma take_take_less: "i \<le> j \<Longrightarrow> take j xs = take j ys \<Longrightarrow> take i xs = take i ys"
  by (metis min.absorb1 take_take)

lemma frames_below_preserved:
  "(\<forall>d st points n rl v st'. compute_hv fuel d st points n rl = Inr (v, st') \<longrightarrow>
        points < rl \<longrightarrow> take points (m_frames st') = take points (m_frames st)) \<and>
   (\<forall>d st points n p rl v st'. exclusive_hv fuel d st points n p rl = Inr (v, st') \<longrightarrow>
        take rl (m_frames st') = take rl (m_frames st))"
proof (induction fuel)
  case 0
  then show ?case by simp
next
  case (Suc fuel)
  have ex: "\<And>d st points n p rl v st'. exclusive_hv fuel d st points n p rl = Inr (v, st') \<Longrightarrow>
        take rl (m_frames st') = take rl (m_frames st)"
    using Suc by blast
  have ch: "\<And>d st points n rl v st'. compute_hv fuel d st points n rl = Inr (v, st') \<Longrightarrow>
        points < rl \<Longrightarrow> take points (m_frames st') = take points (m_frames st)"
    using Suc by blast
  have A: "take points (m_frames st') = take points (m_frames st)"
    if c: "compute_hv (Suc fuel) d st points n rl = Inr (v, st')" and lt: "points < rl"
    for d st points n rl v st'
  proof (cases rule: compute_hv_cases[of st points n])
    case range
    then show ?thesis using c by (simp add: compute_hv_out_of_range)
  next
    case one
    then show ?thesis using c by (simp add: compute_hv_one)
  next
    case two
    then show ?thesis using c by (simp add: compute_hv_two)
  next
    case stop
    then show ?thesis using c by (simp add: compute_hv_stop split: if_splits)
  next
    case zero_empty
    then show ?thesis using c by (auto simp add: compute_hv_zero_empty sort_frame_def)
  next
    case zero_read
    then show ?thesis using c by (simp add: compute_hv_zero_read)
  next
    case recursive
    let ?l = "hv_loop (\<lambda>s i. exclusive_hv fuel d s points n i rl) points
             (sorted_and_sliced st points n) [0..<n] 0"
    from c recursive obtain H st2 where l: "?l = Inr (H, st2)"
      and s: "st' = st2\<lparr>m_current_slice := m_current_slice st2 + 1\<rparr>"
      by (auto simp: compute_hv_recursive split: sum.splits)
    have "take rl (m_frames st2) = take rl (m_frames (sorted_and_sliced st points n))"
      using hv_loop_preserves[where f = "\<lambda>s. take rl (m_frames s)", OF _ l] ex by blast
    then have "take points (m_frames st2) = take points (m_frames (sorted_and_sliced st points n))"
      using lt take_take_less[of points rl] by simp
    then show ?thesis using s by (simp add: sorted_and_sliced_take)
  qed
  have B: "take rl (m_frames st') = take rl (m_frames st)"
    if c: "exclusive_hv (Suc fuel) d st points n p rl = Inr (v, st')" for d st points n p rl v st'
  proof -
    obtain st1 st2 where n: "new_frame st rl = Inr st1" and l: "limitset st1 points n p rl = Inr st2"
      using c unfolding exclusive_hv_Suc by (auto split: sum.splits)
    have "rl < m_n_frames st1"
      using limitset_in_range_if[OF l] by (simp add: limitset_in_range_def)
    then have f2: "take rl (m_frames st2) = take rl (m_frames st)"
      using new_frame_take[OF n] limitset_take[OF l] by simp
    have e: "exclusive_in_range st2 points p rl"
      using c n l exclusive_hv_out_of_range[OF n l] by force
    consider (same) "st' = st2"
      | (rec) h where "compute_hv fuel d st2 rl (m_frames_size st2 ! rl) (rl + 1) = Inr (h, st')"
      using c unfolding exclusive_hv_limited[OF n l e]
      by (auto split: if_splits sum.splits)
    then show ?thesis
    proof cases
      case same
      then show ?thesis using f2 by simp
    next
      case rec
      have "take rl (m_frames st') = take rl (m_frames st2)"
        using ch[OF rec] by simp
      then show ?thesis using f2 by simp
    qed
  qed
  show ?case using A B by blast
qed

lemma exclusive_hv_keeps_points:
  assumes "exclusive_hv fuel d st points n p rl = Inr (v, st')" and "points < rl"
  shows "m_frames st' ! points = m_frames st ! points"
    and "m_current_slice st' = m_current_slice st"
    and "m_refpoint st' = m_refpoint st"
proof -
  have "take rl (m_frames st') = take rl (m_frames st)"
    using frames_below_preserved[of fuel] assms(1) by blast
  then show "m_frames st' ! points = m_frames st ! points"
    using assms(2) by (metis nth_take)
  have "fixed_part st' = fixed_part st"
    using fixed_part_preserved[of fuel] assms(1) by blast
  then show "m_current_slice st' = m_current_slice st" and "m_refpoint st' = m_refpoint st"
    by (simp_all add: fixed_part_def)
qed

subsection \<open>The sum of the recursive step\<close>

lemma hv_loop_sum:
  assumes "\<And>s i v s'. ex s i = Inr (v, s') \<Longrightarrow>
             m_frames s' ! points = m_frames s ! points \<and>
             m_current_slice s' = m_current_slice s \<and> m_refpoint s' = m_refpoint s"
    and "hv_loop ex points st is H0 = Inr (H, st')"
  shows "\<exists>vs. excl_values ex st is = Inr vs \<and> length vs = length is \<and>
           H = H0 + sum_list (map2 (\<lambda>i v. \<bar>(m_frames st ! points ! i ! m_current_slice st
                                   - m_refpoint st ! m_current_slice st) * v\<bar>) is vs)"
  using assms(2)
proof (induction "is" arbitrary: st H0)
  case Nil
  then show ?case by simp
next
  case (Cons i "is")
  let ?t = "\<bar>(m_frames st ! points ! i ! m_current_slice st - m_refpoint st ! m_current_slice st)\<bar>"
  from Cons.prems obtain v s1 where e: "ex st i = Inr (v, s1)"
    by (auto split: sum.splits)
  with Cons.prems have l: "hv_loop ex points s1 is
      (H0 + \<bar>(m_frames st ! points ! i ! m_current_slice st - m_refpoint st ! m_current_slice st) * v\<bar>) = Inr (H, st')"
    by simp
  from Cons.IH[OF l] obtain vs where vs: "excl_values ex s1 is = Inr vs" "length vs = length is"
    and H: "H = H0 + \<bar>(m_frames st ! points ! i ! m_current_slice st - m_refpoint st ! m_current_slice st) * v\<bar>
          + sum_list (map2 (\<lambda>i v. \<bar>(m_frames s1 ! points ! i ! m_current_slice s1
                                   - m_refpoint s1 ! m_current_slice s1) * v\<bar>) is vs)"
    by blast
  have same: "m_frames s1 ! points = m_frames st ! points" "m_current_slice s1 = m_current_slice st"
    "m_refpoint s1 = m_refpoint st"
    using assms(1)[OF e] by simp_all
  have "excl_values ex st (i # is) = Inr (v # vs)"
    using e vs(1) by simp
  moreover have "length (v # vs) = length (i # is)"
    using vs(2) by simp
  moreover have "H = H0 + sum_list (map2 (\<lambda>i v. \<bar>(m_frames st ! points ! i ! m_current_slice st
                                   - m_refpoint st ! m_current_slice st) * v\<bar>) (i # is) (v # vs))"
    using H same by simp
  ultimately show ?case by blast
qed

lemma sum_list_map2_upt:
  assumes "length vs = n"
  shows "sum_list (map2 f [0..<n] vs) = (\<Sum>i<n. f i (vs ! i))"
proof -
  have "map2 f [0..<n] vs = map (\<lambda>i. f i (vs ! i)) [0..<n]"
    using assms by (auto simp: list_eq_iff_nth_eq)
  then show ?thesis
    by (simp add: interv_sum_list_conv_sum_set_nat atLeast0LessThan)
qed

subsection \<open>The comparator\<close>

lemma dom_cmp_take: "dom_cmp a b k = dom_cmp (take k a) (take k b) k"
  by (simp add: dom_cmp_def list_all_iff)

lemma dom_cmp_equal_iff: "dom_cmp a b k = DOM_CMP_A_B_EQUAL \<longleftrightarrow> (\<forall>i<k. a ! i = b ! i)"
  by (auto simp: dom_cmp_def list_all_iff)

lemma dominates_iff:
  "dominates k a b \<longleftrightarrow> (\<forall>i<k. a ! i \<le> b ! i) \<and> (\<exists>i<k. a ! i \<noteq> b ! i)"
  by (auto simp: dominates_def dom_cmp_def list_all_iff)

lemma dom_cmp_b_dominates_iff: "dom_cmp a b k = DOM_CMP_B_DOMINATES_A \<longleftrightarrow> dominates k b a"
proof
  assume "dom_cmp a b k = DOM_CMP_B_DOMINATES_A"
  then have "\<not> (\<forall>i<k. a ! i = b ! i)" and "\<forall>i<k. b ! i \<le> a ! i"
    by (auto simp: dom_cmp_def list_all_iff split: if_splits)
  then show "dominates k b a"
    unfolding dominates_iff by metis
next
  assume "dominates k b a"
  then obtain i where le: "\<forall>i<k. b ! i \<le> a ! i" and i: "i < k" "b ! i \<noteq> a ! i"
    by (auto simp: dominates_iff)
  have "b ! i < a ! i" using le i by (simp add: order_less_le)
  then have "\<not> (\<forall>i<k. a ! i = b ! i)" and "\<not> (\<forall>i<k. a ! i \<le> b ! i)"
    using i(1) by (auto simp: not_le intro: exI[of _ i])
  then show "dom_cmp a b k = DOM_CMP_B_DOMINATES_A"
    using le by (auto simp: dom_cmp_def list_all_iff)
qed

lemma dominates_irrefl: "\<not> dominates k a a"
  by (simp add: dominates_iff)

lemma dominates_trans:
  assumes "dominates k a b" and "dominates k b c"
  shows "dominates k a c"
proof -
  have le: "\<forall>i<k. a ! i \<le> c ! i"
    using assms by (meson dominates_iff order_trans)
  obtain i where i: "i < k" "a ! i \<noteq> b ! i"
    using assms(1) by (auto simp: dominates_iff)
  have "a ! i < b ! i" "b ! i \<le> c ! i"
    using assms i by (auto simp: dominates_iff order_less_le)
  then have "a ! i \<noteq> c ! i" by simp
  then show ?thesis using le i(1) by (auto simp: dominates_iff)
qed

lemma equal_points_iff:
  assumes "length a = k" and "length b = k"
  shows "dom_cmp a b k = DOM_CMP_A_B_EQUAL \<longleftrightarrow> a = b"
  using assms by (auto simp: dom_cmp_equal_iff list_eq_iff_nth_eq)

subsection \<open>The points kept, candidate by candidate\<close>

lemma kept_inv_Nil: "kept_inv k [] []"
  by (simp add: kept_inv_def)

lemma kept_inv_step:
  assumes inv: "kept_inv k kept cs"
    and len: "\<forall>q\<in>set kept. length q = k" "length c = k"
  shows "kept_inv k (keep_candidate k c kept) (cs @ [c])"
proof (cases "\<exists>q\<in>set kept. dominates k q c")
  case True
  then have "keep_candidate k c kept = kept"
    by (auto simp: keep_candidate_def list_ex_iff dom_cmp_b_dominates_iff)
  then show ?thesis using inv True by (auto simp: kept_inv_def)
next
  case False
  let ?P = "\<lambda>q. \<not> dominates k c q \<and> q \<noteq> c"
  have P: "(dom_cmp c q k \<noteq> DOM_CMP_A_DOMINATES_B \<and> dom_cmp c q k \<noteq> DOM_CMP_A_B_EQUAL) = ?P q"
    if "q \<in> set kept" for q
    using that len equal_points_iff[of c k q] by (auto simp: dominates_def)
  have k': "keep_candidate k c kept = filter ?P kept @ [c]"
    using False P by (auto simp: keep_candidate_def list_ex_iff dom_cmp_b_dominates_iff
        intro!: filter_cong)
  have sub: "set (filter ?P kept @ [c]) \<subseteq> set (cs @ [c])"
    using inv by (auto simp: kept_inv_def)
  have dist: "distinct (filter ?P kept @ [c])"
    using inv by (auto simp: kept_inv_def)
  have pair: "\<not> dominates k a b"
    if "a \<in> set (filter ?P kept @ [c])" "b \<in> set (filter ?P kept @ [c])" for a b
    using that inv False by (auto simp: kept_inv_def dominates_irrefl)
  have cover: "x \<in> set (filter ?P kept @ [c]) \<or> (\<exists>m\<in>set (filter ?P kept @ [c]). dominates k m x)"
    if x: "x \<in> set (cs @ [c])" for x
  proof (cases "x = c")
    case True
    then show ?thesis by simp
  next
    case xc: False
    then have "x \<in> set cs" using x by simp
    then consider (kept) "x \<in> set kept" | (dom) m where "m \<in> set kept" "dominates k m x"
      using inv by (auto simp: kept_inv_def)
    then show ?thesis
    proof cases
      case kept
      then show ?thesis using xc by (cases "dominates k c x") auto
    next
      case dom
      show ?thesis
      proof (cases "?P m")
        case True
        then show ?thesis using dom by auto
      next
        case False
        then have "dominates k c x"
          using dom dominates_trans[of k c m x] by auto
        then show ?thesis by auto
      qed
    qed
  qed
  show ?thesis unfolding k' kept_inv_def using sub dist pair cover by blast
qed

lemma length_keep_candidate:
  "\<forall>q\<in>set kept. length q = k \<Longrightarrow> length c = k \<Longrightarrow>
   \<forall>q\<in>set (keep_candidate k c kept). length q = k"
  by (auto simp: keep_candidate_def)

lemma kept_inv_fold:
  assumes "kept_inv k kept cs0" and "\<forall>q\<in>set kept. length q = k" and "\<forall>c\<in>set cs. length c = k"
  shows "kept_inv k (fold (keep_candidate k) cs kept) (cs0 @ cs)"
  using assms
proof (induction cs arbitrary: kept cs0)
  case Nil
  then show ?case by simp
next
  case (Cons c cs)
  have 1: "kept_inv k (keep_candidate k c kept) (cs0 @ [c])"
    using kept_inv_step[OF Cons.prems(1,2)] Cons.prems(3) by simp
  have 2: "\<forall>q\<in>set (keep_candidate k c kept). length q = k"
    using length_keep_candidate[OF Cons.prems(2), of c] Cons.prems(3) by simp
  show ?case using Cons.IH[OF 1 2] Cons.prems(3) by simp
qed

lemma kept_inv_minimal:
  assumes "kept_inv k kept cs"
  shows "set kept = {c \<in> set cs. \<not> (\<exists>c'\<in>set cs. dominates k c' c)}"
proof (intro set_eqI iffI)
  fix x
  assume x: "x \<in> set kept"
  have "\<not> dominates k c' x" if c': "c' \<in> set cs" for c'
  proof
    assume d: "dominates k c' x"
    from assms c' consider "c' \<in> set kept" | m where "m \<in> set kept" "dominates k m c'"
      by (auto simp: kept_inv_def)
    then show False
    proof cases
      case 1
      then show False using assms x d by (auto simp: kept_inv_def)
    next
      case 2
      then have "dominates k m x" using d dominates_trans by blast
      then show False using assms x 2(1) by (auto simp: kept_inv_def)
    qed
  qed
  then show "x \<in> {c \<in> set cs. \<not> (\<exists>c'\<in>set cs. dominates k c' c)}"
    using assms x by (auto simp: kept_inv_def)
next
  fix x
  assume "x \<in> {c \<in> set cs. \<not> (\<exists>c'\<in>set cs. dominates k c' c)}"
  then show "x \<in> set kept"
    using assms unfolding kept_inv_def by blast
qed

subsection \<open>One round of limitset\<close>

lemma take_limit_row: "take k (limit_row k q p row) = map (\<lambda>f. max (q ! f) (p ! f)) [0..<k]"
  by (simp add: limit_row_def)

lemma length_limit_row: "k \<le> length row \<Longrightarrow> length (limit_row k q p row) = length row"
  by (simp add: limit_row_def)

lemma take_copy_row: "k \<le> length src \<Longrightarrow> take k (copy_row k src dst) = take k src"
  by (simp add: copy_row_def)

lemma length_copy_row:
  "k \<le> length src \<Longrightarrow> k \<le> length dst \<Longrightarrow> length (copy_row k src dst) = length dst"
  by (simp add: copy_row_def)

lemma dom_scan_keep:
  "dom_scan k s rows = (cs, keep) \<Longrightarrow>
   keep = (\<forall>q\<in>set rows. dom_cmp s q k \<noteq> DOM_CMP_B_DOMINATES_A)"
proof (induction rows arbitrary: cs keep)
  case Nil
  then show ?case by auto
next
  case (Cons q rows)
  show ?case
  proof (cases "dom_cmp s q k = DOM_CMP_B_DOMINATES_A")
    case True
    then show ?thesis using Cons.prems by (auto simp: Let_def)
  next
    case False
    obtain cs' keep' where r: "dom_scan k s rows = (cs', keep')"
      by (cases "dom_scan k s rows")
    then have "keep = keep'" using Cons.prems False by (simp add: Let_def)
    then show ?thesis using Cons.IH[OF r] False by simp
  qed
qed

lemma dom_scan_results:
  "dom_scan k s rows = (cs, True) \<Longrightarrow> cs = map (\<lambda>q. dom_cmp s q k) rows"
proof (induction rows arbitrary: cs)
  case Nil
  then show ?case by auto
next
  case (Cons q rows)
  have nd: "dom_cmp s q k \<noteq> DOM_CMP_B_DOMINATES_A"
    using Cons.prems by (auto simp: Let_def split: if_splits)
  obtain cs' keep' where r: "dom_scan k s rows = (cs', keep')"
    by (cases "dom_scan k s rows")
  then have "keep' = True" "cs = dom_cmp s q k # cs'"
    using Cons.prems nd by (auto simp: Let_def)
  then show ?case using Cons.IH[of cs'] r by simp
qed

lemma compact_done: "\<not> next < no \<Longrightarrow> compact k cs no fr prev next = (fr, prev)"
  by (subst compact.simps) simp

lemma compact_keep:
  "next < no \<Longrightarrow>
   cs ! next \<noteq> DOM_CMP_A_DOMINATES_B \<and> cs ! next \<noteq> DOM_CMP_A_B_EQUAL \<Longrightarrow>
   compact k cs no fr prev next =
     compact k cs no (if prev < next then fr[prev := copy_row k (fr ! next) (fr ! prev)] else fr)
       (Suc prev) (Suc next)"
  by (subst compact.simps) simp

lemma compact_drop:
  "next < no \<Longrightarrow>
   \<not> (cs ! next \<noteq> DOM_CMP_A_DOMINATES_B \<and> cs ! next \<noteq> DOM_CMP_A_B_EQUAL) \<Longrightarrow>
   compact k cs no fr prev next = compact k cs no fr prev (Suc next)"
  by (subst compact.simps) auto

text \<open>
  The rows a round of the compaction has not reached are as they were, and the stored
  outcomes are those of these rows.
\<close>

lemma compact_spec:
  assumes "compact k cs no fr prev next = (fr2, prev2)"
    and "prev \<le> next" and "next \<le> no" and "no \<le> length fr"
    and "\<forall>j. next \<le> j \<longrightarrow> j < no \<longrightarrow> cs ! j = dom_cmp s (fr ! j) k"
    and "\<forall>j<no. k \<le> length (fr ! j)"
  shows "length fr2 = length fr \<and> prev2 \<le> no \<and> drop no fr2 = drop no fr \<and>
         map length fr2 = map length fr \<and>
         map (take k) (take prev2 fr2) =
           map (take k) (take prev fr) @
           map (take k) (filter (\<lambda>q. dom_cmp s q k \<noteq> DOM_CMP_A_DOMINATES_B \<and>
                                     dom_cmp s q k \<noteq> DOM_CMP_A_B_EQUAL)
                            (drop next (take no fr)))"
  using assms
proof (induction k cs no fr prev "next" arbitrary: fr2 prev2 rule: compact.induct)
  case (1 k cs no fr prev "next")
  let ?P = "\<lambda>q. dom_cmp s q k \<noteq> DOM_CMP_A_DOMINATES_B \<and> dom_cmp s q k \<noteq> DOM_CMP_A_B_EQUAL"
  show ?case
  proof (cases "next < no")
    case False
    then have "fr2 = fr" "prev2 = prev" "next = no"
      using "1.prems"(1,3) compact_done[OF False, of k cs fr prev] by simp_all
    then show ?thesis using "1.prems"(2) by simp
  next
    case lt: True
    have cn: "cs ! next = dom_cmp s (fr ! next) k"
      using "1.prems"(5) lt by simp
    have "next < length (take no fr)"
      using lt "1.prems"(4) by simp
    from Cons_nth_drop_Suc[OF this]
    have dr: "drop next (take no fr) = fr ! next # drop (Suc next) (take no fr)"
      using lt by simp
    show ?thesis
    proof (cases "?P (fr ! next)")
      case False
      then have np: "\<not> (cs ! next \<noteq> DOM_CMP_A_DOMINATES_B \<and> cs ! next \<noteq> DOM_CMP_A_B_EQUAL)"
        using cn by simp
      have c: "compact k cs no fr prev (Suc next) = (fr2, prev2)"
        using "1.prems"(1) compact_drop[OF lt np, of k fr prev] by simp
      have "length fr2 = length fr \<and> prev2 \<le> no \<and> drop no fr2 = drop no fr \<and>
         map length fr2 = map length fr \<and>
         map (take k) (take prev2 fr2) =
           map (take k) (take prev fr) @ map (take k) (filter ?P (drop (Suc next) (take no fr)))"
        using "1.IH"(2)[OF lt np c] "1.prems"(2,4,5,6) lt by simp
      then show ?thesis using dr False by simp
    next
      case True
      let ?fr' = "if prev < next then fr[prev := copy_row k (fr ! next) (fr ! prev)] else fr"
      have yp: "cs ! next \<noteq> DOM_CMP_A_DOMINATES_B \<and> cs ! next \<noteq> DOM_CMP_A_B_EQUAL"
        using True cn by simp
      have c: "compact k cs no ?fr' (Suc prev) (Suc next) = (fr2, prev2)"
        using "1.prems"(1) compact_keep[OF lt yp, of k fr prev] by simp
      have pl: "prev < length fr" "next < length fr"
        using "1.prems"(2,4) lt by simp_all
      have kl: "k \<le> length (fr ! next)" "k \<le> length (fr ! prev)"
        using "1.prems"(2,6) lt by simp_all
      have len': "length ?fr' = length fr" by simp
      have rows': "map length ?fr' = map length fr"
        using kl pl by (auto simp: list_eq_iff_nth_eq nth_list_update length_copy_row)
      have nth': "?fr' ! j = fr ! j" if "j \<noteq> prev" for j
        using that by simp
      have a5: "\<forall>j. Suc next \<le> j \<longrightarrow> j < no \<longrightarrow> cs ! j = dom_cmp s (?fr' ! j) k"
        using "1.prems"(2,5) by (simp add: nth_list_update)
      have a6: "\<forall>j<no. k \<le> length (?fr' ! j)"
      proof (intro allI impI)
        fix j assume "j < no"
        then have "j < length fr" "k \<le> length (fr ! j)"
          using "1.prems"(4,6) by simp_all
        moreover have "length (?fr' ! j) = length (fr ! j)"
          using rows' \<open>j < length fr\<close> by (metis len' nth_map)
        ultimately show "k \<le> length (?fr' ! j)" by simp
      qed
      have ih: "length fr2 = length ?fr' \<and> prev2 \<le> no \<and> drop no fr2 = drop no ?fr' \<and>
         map length fr2 = map length ?fr' \<and>
         map (take k) (take prev2 fr2) =
           map (take k) (take (Suc prev) ?fr') @
           map (take k) (filter ?P (drop (Suc next) (take no ?fr')))"
        using "1.IH"(1)[OF lt yp c _ _ _ a5 a6] "1.prems"(2,4) lt by simp
      have t1: "take (Suc prev) ?fr' = take prev fr @ [?fr' ! prev]"
        using pl by (simp add: take_Suc_conv_app_nth)
      have t2: "take k (?fr' ! prev) = take k (fr ! next)"
        using pl kl "1.prems"(2) by (auto simp: take_copy_row)
      have t3: "drop (Suc next) (take no ?fr') = drop (Suc next) (take no fr)"
        using "1.prems"(2) by (simp add: drop_take drop_update_cancel)
      have t4: "drop no ?fr' = drop no fr"
        using "1.prems"(2) lt by (simp add: drop_update_cancel)
      show ?thesis
        using ih t1 t2 t3 t4 rows' dr True by simp
    qed
  qed
qed

lemma keep_candidate_map_take:
  assumes "take k s = c"
  shows "keep_candidate k c (map (take k) rows) =
     (if \<exists>q\<in>set rows. dom_cmp s q k = DOM_CMP_B_DOMINATES_A then map (take k) rows
      else map (take k) (filter (\<lambda>q. dom_cmp s q k \<noteq> DOM_CMP_A_DOMINATES_B \<and>
                                     dom_cmp s q k \<noteq> DOM_CMP_A_B_EQUAL) rows) @ [c])"
proof -
  have d: "dom_cmp c (take k q) k = dom_cmp s q k" for q
    using dom_cmp_take[of s q k] dom_cmp_take[of c "take k q" k] assms by simp
  show ?thesis
    by (simp add: keep_candidate_def list_ex_iff d filter_map comp_def)
qed

lemma limit_step_spec:
  assumes st: "limit_step k points p_idx rl idx (frames, no) = (frames', no')"
    and rl: "rl < length frames" and no: "no < length (frames ! rl)"
    and rows: "\<forall>j\<le>no. k \<le> length (frames ! rl ! j)"
  shows "map (take k) (take no' (frames' ! rl)) =
           keep_candidate k
             (map (\<lambda>f. max (frames ! points ! idx ! f) (frames ! points ! p_idx ! f)) [0..<k])
             (map (take k) (take no (frames ! rl)))"
    and "map length (frames' ! rl) = map length (frames ! rl)"
    and "no' \<le> Suc no"
proof -
  let ?c = "map (\<lambda>f. max (frames ! points ! idx ! f) (frames ! points ! p_idx ! f)) [0..<k]"
  let ?fr = "frames ! rl"
  let ?s = "limit_row k (frames ! points ! idx) (frames ! points ! p_idx) (?fr ! no)"
  let ?fr1 = "?fr[no := ?s]"
  let ?P = "\<lambda>q. dom_cmp ?s q k \<noteq> DOM_CMP_A_DOMINATES_B \<and> dom_cmp ?s q k \<noteq> DOM_CMP_A_B_EQUAL"
  have s: "?fr1 ! no = ?s" using no by simp
  have ts: "take k ?s = ?c" by (rule take_limit_row)
  have ls: "length ?s = length (?fr ! no)"
    using rows by (simp add: length_limit_row)
  have t1: "take no ?fr1 = take no ?fr" by simp
  have l1: "map length ?fr1 = map length ?fr"
    using no ls by (auto simp: list_eq_iff_nth_eq nth_list_update)
  obtain cs keep where d: "dom_scan k ?s (take no ?fr) = (cs, keep)"
    by (cases "dom_scan k ?s (take no ?fr)")
  have keep: "keep = (\<forall>q\<in>set (take no ?fr). dom_cmp ?s q k \<noteq> DOM_CMP_B_DOMINATES_A)"
    using dom_scan_keep[OF d] .
  have kc: "keep_candidate k ?c (map (take k) (take no ?fr)) =
     (if \<not> keep then map (take k) (take no ?fr)
      else map (take k) (filter ?P (take no ?fr)) @ [?c])"
    using keep_candidate_map_take[OF ts, of "take no ?fr"] keep by auto
  show "map (take k) (take no' (frames' ! rl)) = keep_candidate k ?c (map (take k) (take no ?fr))"
    and "map length (frames' ! rl) = map length ?fr" and "no' \<le> Suc no"
  proof (atomize (full), cases keep)
    case False
    have "limit_step k points p_idx rl idx (frames, no) = (frames[rl := ?fr1], no)"
      using d False unfolding limit_step_def Let_def by (simp add: s t1)
    then have "frames' = frames[rl := ?fr1]" "no' = no"
      using st by simp_all
    then show "map (take k) (take no' (frames' ! rl)) = keep_candidate k ?c (map (take k) (take no ?fr)) \<and>
      map length (frames' ! rl) = map length ?fr \<and> no' \<le> Suc no"
      using False kc rl l1 by (simp add: t1)
  next
    case True
    obtain fr2 prev where c: "compact k cs no ?fr1 0 0 = (fr2, prev)"
      by (cases "compact k cs no ?fr1 0 0")
    let ?fr3 = "if prev < no then fr2[prev := copy_row k (fr2 ! no) (fr2 ! prev)] else fr2"
    have "limit_step k points p_idx rl idx (frames, no) = (frames[rl := ?fr3], prev + 1)"
      using d c True unfolding limit_step_def Let_def by (simp add: s t1)
    then have res: "frames' = frames[rl := ?fr3]" "no' = prev + 1"
      using st by simp_all
    have cs: "cs = map (\<lambda>q. dom_cmp ?s q k) (take no ?fr)"
      using dom_scan_results d True by simp
    have a5: "\<forall>j. 0 \<le> j \<longrightarrow> j < no \<longrightarrow> cs ! j = dom_cmp ?s (?fr1 ! j) k"
      using no by (simp add: cs)
    have a6: "\<forall>j<no. k \<le> length (?fr1 ! j)"
      using rows by simp
    have sp: "length fr2 = length ?fr1 \<and> prev \<le> no \<and> drop no fr2 = drop no ?fr1 \<and>
         map length fr2 = map length ?fr1 \<and>
         map (take k) (take prev fr2) =
           map (take k) (take 0 ?fr1) @ map (take k) (filter ?P (drop 0 (take no ?fr1)))"
      using no by (intro compact_spec[OF c _ _ _ a5 a6]) simp_all
    then have len2: "length fr2 = length ?fr" and pn: "prev \<le> no"
      and dr: "drop no fr2 = drop no ?fr1" and ml2: "map length fr2 = map length ?fr"
      and tk: "map (take k) (take prev fr2) = map (take k) (filter ?P (take no ?fr))"
      using l1 by (simp_all add: t1)
    have "fr2 ! no = ?fr1 ! no"
      using dr no len2 by (metis length_list_update nth_via_drop Cons_nth_drop_Suc)
    then have f2no: "fr2 ! no = ?s" using s by simp
    have pl: "prev < length fr2" using pn no len2 by simp
    have lp: "length (fr2 ! prev) = length (?fr ! prev)"
      using ml2 pl len2 by (metis nth_map)
    have kp: "k \<le> length (fr2 ! prev)" using lp rows pn by simp
    have ks: "k \<le> length ?s" using ls rows by simp
    have t3: "take (Suc prev) ?fr3 = take prev fr2 @ [?fr3 ! prev]"
      using pl by (simp add: take_Suc_conv_app_nth)
    have t4: "take k (?fr3 ! prev) = ?c"
    proof (cases "prev < no")
      case True
      then show ?thesis using pl f2no ks ts by (simp add: take_copy_row)
    next
      case False
      then have "prev = no" using pn by simp
      then show ?thesis using f2no ts by simp
    qed
    have ml3: "map length ?fr3 = map length ?fr"
      using ml2 pl kp ks f2no
      by (auto simp: list_eq_iff_nth_eq nth_list_update length_copy_row)
    have "map (take k) (take no' (frames' ! rl)) = map (take k) (filter ?P (take no ?fr)) @ [?c]"
      using res rl t3 t4 tk by simp
    then show "map (take k) (take no' (frames' ! rl)) = keep_candidate k ?c (map (take k) (take no ?fr)) \<and>
      map length (frames' ! rl) = map length ?fr \<and> no' \<le> Suc no"
      using True kc res rl ml3 pn by simp
  qed
qed

lemma limit_step_other:
  assumes "limit_step k points p_idx rl idx (frames, no) = (frames', no')"
  shows "length frames' = length frames" and "j \<noteq> rl \<Longrightarrow> frames' ! j = frames ! j"
  using limit_step_update[of k points p_idx rl idx frames no] assms by auto

lemma fold_limit_step_spec:
  assumes "fold (limit_step k points p_idx rl) is (frames, no) = (frames', no')"
    and "points \<noteq> rl" and "rl < length frames"
    and "no + length is \<le> length (frames ! rl)"
    and "\<forall>j<no + length is. k \<le> length (frames ! rl ! j)"
  shows "map (take k) (take no' (frames' ! rl)) =
           fold (keep_candidate k)
             (map (\<lambda>idx. map (\<lambda>f. max (frames ! points ! idx ! f) (frames ! points ! p_idx ! f))
                            [0..<k]) is)
             (map (take k) (take no (frames ! rl))) \<and>
         no' \<le> no + length is \<and> map length (frames' ! rl) = map length (frames ! rl)"
  using assms
proof (induction "is" arbitrary: frames no)
  case Nil
  then show ?case by simp
next
  case (Cons i "is")
  obtain frames1 no1 where s: "limit_step k points p_idx rl i (frames, no) = (frames1, no1)"
    by (cases "limit_step k points p_idx rl i (frames, no)")
  have f: "fold (limit_step k points p_idx rl) is (frames1, no1) = (frames', no')"
    using Cons.prems(1) s by simp
  have no: "no < length (frames ! rl)" and rows: "\<forall>j\<le>no. k \<le> length (frames ! rl ! j)"
    using Cons.prems(4,5) by simp_all
  note sp = limit_step_spec[OF s Cons.prems(3) no rows]
  note ot = limit_step_other[OF s]
  have l1: "rl < length frames1" using ot(1) Cons.prems(3) by simp
  have len: "length (frames1 ! rl) = length (frames ! rl)"
    using sp(2) by (metis length_map)
  have l2: "no1 + length is \<le> length (frames1 ! rl)"
    using sp(3) Cons.prems(4) len by simp
  have l3: "\<forall>j<no1 + length is. k \<le> length (frames1 ! rl ! j)"
  proof (intro allI impI)
    fix j assume j: "j < no1 + length is"
    then have jl: "j < length (frames ! rl)" "j < no + length (i # is)"
      using sp(3) Cons.prems(4) by simp_all
    have "length (frames1 ! rl ! j) = length (frames ! rl ! j)"
      using sp(2) jl(1) len by (metis nth_map)
    then show "k \<le> length (frames1 ! rl ! j)"
      using Cons.prems(5) jl(2) by simp
  qed
  have p: "frames1 ! points = frames ! points"
    using ot(2) Cons.prems(2) by simp
  show ?case
    using Cons.IH[OF f Cons.prems(2) l1 l2 l3] sp(1,2,3) p by simp
qed

lemma length_limit_candidates:
  "\<forall>c\<in>set (limit_candidates k fr p_idx n). length c = k"
  by (auto simp: limit_candidates_def)

text \<open>What \<open>limitset\<close> leaves in the frame it writes.\<close>

lemma limitset_spec:
  assumes "limitset st points n_points p_idx rec_level = Inr st2" and "points \<noteq> rec_level"
  shows "distinct (limited_set st2 rec_level) \<and>
         set (limited_set st2 rec_level) =
           {c \<in> set (limit_candidates (m_current_slice st) (m_frames st ! points) p_idx n_points).
              \<not> (\<exists>c'\<in>set (limit_candidates (m_current_slice st) (m_frames st ! points) p_idx n_points).
                    dominates (m_current_slice st) c' c)} \<and>
         m_frames_size st2 ! rec_level = length (limited_set st2 rec_level)"
proof -
  let ?k = "m_current_slice st"
  let ?is = "[Suc p_idx..<n_points]"
  let ?cs = "limit_candidates ?k (m_frames st ! points) p_idx n_points"
  have g: "limitset_in_range st points n_points p_idx rec_level"
    using limitset_in_range_if[OF assms(1)] .
  obtain frames no where f: "fold (limit_step ?k points p_idx rec_level) ?is (m_frames st, 0) = (frames, no)"
    by (cases "fold (limit_step ?k points p_idx rec_level) ?is (m_frames st, 0)")
  have st2: "m_frames st2 = frames" "m_frames_size st2 = (m_frames_size st)[rec_level := no]"
    "m_current_slice st2 = ?k"
    using assms(1) f g by (auto simp: limitset_def)
  have rl: "rec_level < length (m_frames st)" "rec_level < length (m_frames_size st)"
    using g by (simp_all add: limitset_in_range_def)
  have a4: "0 + length ?is \<le> length (m_frames st ! rec_level)"
    using g by (auto simp: limitset_in_range_def split: if_splits)
  have a5: "\<forall>j<0 + length ?is. ?k \<le> length (m_frames st ! rec_level ! j)"
    using g by (auto simp: limitset_in_range_def list_all_length split: if_splits)
  have sp: "map (take ?k) (take no (frames ! rec_level)) = fold (keep_candidate ?k) ?cs [] \<and>
         no \<le> 0 + length ?is"
    using fold_limit_step_spec[OF f assms(2) rl(1) a4 a5]
    by (simp add: limit_candidates_def)
  have "map length (frames ! rec_level) = map length (m_frames st ! rec_level)"
    using fold_limit_step_spec[OF f assms(2) rl(1) a4 a5] by simp
  then have lenf: "length (frames ! rec_level) = length (m_frames st ! rec_level)"
    by (metis length_map)
  have ls: "limited_set st2 rec_level = fold (keep_candidate ?k) ?cs []"
    using sp st2 rl by (simp add: limited_set_def)
  have inv: "kept_inv ?k (fold (keep_candidate ?k) ?cs []) ([] @ ?cs)"
    using kept_inv_fold[OF kept_inv_Nil _ length_limit_candidates] by simp
  have "no \<le> length (frames ! rec_level)"
    using sp a4 lenf by simp
  then have "m_frames_size st2 ! rec_level = length (limited_set st2 rec_level)"
    using st2 rl by (simp add: limited_set_def)
  then show ?thesis
    using inv kept_inv_minimal[OF inv] unfolding ls by (simp add: kept_inv_def)
qed

subsection \<open>Sorting\<close>

lemma mset_insert_sorted: "mset (insert_sorted lt x xs) = add_mset x (mset xs)"
  by (induction xs) auto

lemma mset_std_sort: "mset (std_sort lt xs) = mset xs"
  by (induction xs) (auto simp: std_sort_def mset_insert_sorted)

lemma length_std_sort: "length (std_sort lt xs) = length xs"
  by (metis mset_std_sort size_mset)

lemma set_std_sort: "set (std_sort lt xs) = set xs"
  by (metis mset_std_sort set_mset_mset)

lemma sorted_insert_sorted:
  assumes asym: "\<And>a b. lt a b \<Longrightarrow> \<not> lt b a"
    and trans: "\<And>a b c. lt a b \<Longrightarrow> lt b c \<Longrightarrow> lt a c"
    and "sorted_wrt (\<lambda>a b. \<not> lt b a) xs"
  shows "sorted_wrt (\<lambda>a b. \<not> lt b a) (insert_sorted lt x xs)"
  using assms(3)
proof (induction xs)
  case Nil
  then show ?case by simp
next
  case (Cons y ys)
  show ?case
  proof (cases "lt x y")
    case True
    have "\<not> lt z x" if "z \<in> set ys" for z
      using that Cons.prems True trans by auto
    then show ?thesis using True Cons.prems asym by auto
  next
    case False
    have "set (insert_sorted lt x ys) = insert x (set ys)"
      by (metis mset_insert_sorted set_mset_add_mset_insert set_mset_mset)
    then show ?thesis using False Cons by auto
  qed
qed

lemma sorted_std_sort:
  assumes "\<And>a b. lt a b \<Longrightarrow> \<not> lt b a" and "\<And>a b c. lt a b \<Longrightarrow> lt b c \<Longrightarrow> lt a c"
  shows "sorted_wrt (\<lambda>a b. \<not> lt b a) (std_sort lt xs)"
proof (induction xs)
  case Nil
  then show ?case by (simp add: std_sort_def)
next
  case (Cons x xs)
  have "std_sort lt (x # xs) = insert_sorted lt x (std_sort lt xs)"
    by (simp add: std_sort_def)
  then show ?case using sorted_insert_sorted[of lt, OF assms Cons] by simp
qed

text \<open>
  Two sorted arrangements of the same elements are the same list, where elements that the
  comparator does not order are equal.
\<close>

lemma sorted_unique:
  assumes "sorted_wrt (\<lambda>a b. \<not> lt b a) xs" and "sorted_wrt (\<lambda>a b. \<not> lt b a) ys"
    and "mset xs = mset ys"
    and "\<And>a b. a \<in> set xs \<Longrightarrow> b \<in> set xs \<Longrightarrow> \<not> lt a b \<Longrightarrow> \<not> lt b a \<Longrightarrow> a = b"
  shows "xs = ys"
  using assms
proof (induction xs arbitrary: ys)
  case Nil
  then show ?case by simp
next
  case (Cons x xs)
  then obtain y ys' where ys: "ys = y # ys'"
    by (cases ys) auto
  have sets: "set (x # xs) = set (y # ys')"
    using Cons.prems(3) ys by (metis set_mset_mset)
  have xy: "x = y"
  proof (rule ccontr)
    assume ne: "x \<noteq> y"
    then have "x \<in> set ys'" "y \<in> set xs"
      using sets by auto
    then have "\<not> lt x y" "\<not> lt y x"
      using Cons.prems(1,2) ys by auto
    moreover have "x \<in> set (x # xs)" "y \<in> set (x # xs)"
      using \<open>y \<in> set xs\<close> by simp_all
    ultimately show False using Cons.prems(4) ne by blast
  qed
  have "xs = ys'"
    using Cons.prems ys xy by (intro Cons.IH) auto
  then show ?case using xy ys by simp
qed

lemma cmp_func_from_asym: "cmp_func_from k a b \<Longrightarrow> \<not> cmp_func_from k b a"
  by (induction k) (auto split: if_splits)

lemma cmp_func_from_trans:
  "cmp_func_from k a b \<Longrightarrow> cmp_func_from k b c \<Longrightarrow> cmp_func_from k a c"
  by (induction k) (auto split: if_splits)

lemma cmp_func_from_equal:
  "\<not> cmp_func_from k a b \<Longrightarrow> \<not> cmp_func_from k b a \<Longrightarrow> i < k \<Longrightarrow> a ! i = b ! i"
proof (induction k)
  case 0
  then show ?case by simp
next
  case (Suc k)
  then have "a ! k = b ! k" "\<not> cmp_func_from k a b" "\<not> cmp_func_from k b a"
    by (auto split: if_splits)
  then show ?case using Suc.prems(3) Suc.IH by (cases "i = k") auto
qed

lemma std_sort_permuted:
  assumes "mset xs = mset ys" and "\<forall>row\<in>set xs. length row = k"
  shows "std_sort (cmp_func_from k) xs = std_sort (cmp_func_from k) ys"
proof (rule sorted_unique[where lt = "cmp_func_from k"])
  show "sorted_wrt (\<lambda>a b. \<not> cmp_func_from k b a) (std_sort (cmp_func_from k) xs)"
    by (rule sorted_std_sort) (blast dest: cmp_func_from_asym cmp_func_from_trans)+
  show "sorted_wrt (\<lambda>a b. \<not> cmp_func_from k b a) (std_sort (cmp_func_from k) ys)"
    by (rule sorted_std_sort) (blast dest: cmp_func_from_asym cmp_func_from_trans)+
  show "mset (std_sort (cmp_func_from k) xs) = mset (std_sort (cmp_func_from k) ys)"
    using assms(1) by (simp add: mset_std_sort)
  fix a b
  assume "a \<in> set (std_sort (cmp_func_from k) xs)" "b \<in> set (std_sort (cmp_func_from k) xs)"
    and n: "\<not> cmp_func_from k a b" "\<not> cmp_func_from k b a"
  then have "length a = k" "length b = k"
    using assms(2) by (simp_all add: set_std_sort)
  then show "a = b"
    using cmp_func_from_equal[OF n] by (simp add: list_eq_iff_nth_eq)
qed

subsection \<open>The order of the points\<close>

lemma cmp_func_eq: "cmp_func st = cmp_func_from (m_current_slice st)"
  by (intro ext) (simp add: cmp_func_def)

lemma sorted_and_sliced_start:
  assumes "mset points' = mset points" and "r_point \<noteq> []"
  shows "sorted_and_sliced (start_state st points' r_point) 0 (length points') =
         sorted_and_sliced (start_state st points r_point) 0 (length points)"
proof -
  let ?D = "length r_point"
  let ?g = "\<lambda>p. map (\<lambda>d_idx. p ! d_idx) [0..<?D]"
  have len: "length points' = length points"
    using assms(1) by (metis size_mset)
  have m: "mset (map ?g points') = mset (map ?g points)"
    using assms(1) by (metis mset_map)
  have "std_sort (cmp_func_from ?D) (map ?g points') = std_sort (cmp_func_from ?D) (map ?g points)"
    by (rule std_sort_permuted[OF m]) auto
  then show ?thesis
    using assms(2) len
    by (simp add: sorted_and_sliced_def sort_frame_def cmp_func_eq start_state_def Let_def)
qed

lemma two_points_permuted:
  assumes "mset points' = mset points" and "length points = 2"
  shows "(points' ! 0 = points ! 0 \<and> points' ! 1 = points ! 1) \<or>
         (points' ! 0 = points ! 1 \<and> points' ! 1 = points ! 0)"
proof -
  obtain a b where p: "points = [a, b]"
    using assms(2) by (metis One_nat_def Suc_1 length_0_conv length_Suc_conv)
  have "length points' = 2" using assms by (metis size_mset)
  then obtain a' b' where p': "points' = [a', b']"
    by (metis One_nat_def Suc_1 length_0_conv length_Suc_conv)
  have "{#a', b'#} = {#a, b#}" using assms(1) p p' by simp
  then have "(a' = a \<and> b' = b) \<or> (a' = b \<and> b' = a)"
    by (auto simp: add_eq_conv_ex)
  then show ?thesis using p p' by auto
qed

lemma compute_hv_start_permuted:
  assumes perm: "mset points' = mset points" and r: "r_point \<noteq> []"
    and hv2d: "\<And>ps ps' r. mset ps' = mset ps \<Longrightarrow>
                 hv2d_compute d ps' (length ps') r = hv2d_compute d ps (length ps) r"
    and hyp: "\<And>ps ps' r. mset ps' = mset ps \<Longrightarrow>
                 hypervolume_compute d ps' r = hypervolume_compute d ps r"
  shows "volume_of (compute_hv fuel d (start_state st points' r_point) 0 (length points') 1) =
         volume_of (compute_hv fuel d (start_state st points r_point) 0 (length points) 1)"
proof (cases fuel)
  case 0
  then show ?thesis by simp
next
  case (Suc fuel')
  let ?S = "start_state st points r_point" and ?S' = "start_state st points' r_point"
  let ?n = "length points"
  let ?D = "length r_point"
  let ?g = "\<lambda>p. map (\<lambda>d_idx. p ! d_idx) [0..<?D]"
  have len: "length points' = ?n"
    using perm by (metis size_mset)
  have rng: "rows_in_range ?S 0 ?n" "rows_in_range ?S' 0 ?n"
    using rows_in_range_start[OF r, of st points] rows_in_range_start[OF r, of st points'] len
    by simp_all
  have fr: "m_frames ?S ! 0 = map ?g points" "m_frames ?S' ! 0 = map ?g points'"
    using start_state_frame0[OF r] by simp_all
  have m: "mset (map ?g points') = mset (map ?g points)"
    using perm by (metis mset_map)
  show ?thesis
  proof (cases rule: compute_hv_cases[of ?S 0 ?n])
    case range
    then show ?thesis using rng by simp
  next
    case one
    then obtain p where "points = [p]"
      by (metis One_nat_def length_0_conv length_Suc_conv)
    then have "points' = points" using perm by simp
    then show ?thesis by simp
  next
    case two
    define V where "V F = volume_between (F ! 0) r_point ?D + volume_between (F ! 1) r_point ?D
        - prod_list (map (\<lambda>i. r_point ! i - max (F ! 0 ! i) (F ! 1 ! i)) [0..<?D])" for F :: frame
    have c1: "compute_hv (Suc fuel') d ?S 0 ?n 1 = Inr (V (map ?g points), ?S)"
      using compute_hv_two[OF rng(1) two(2), of fuel' d 1]
      by (simp add: fr start_state_fields V_def)
    have c2: "compute_hv (Suc fuel') d ?S' 0 ?n 1 = Inr (V (map ?g points'), ?S')"
      using compute_hv_two[OF rng(2) two(2), of fuel' d 1]
      by (simp add: fr start_state_fields V_def)
    have n0: "map ?g points ! 0 = ?g (points ! 0)" "map ?g points ! 1 = ?g (points ! 1)"
      "map ?g points' ! 0 = ?g (points' ! 0)" "map ?g points' ! 1 = ?g (points' ! 1)"
      using two(2) len by simp_all
    have "V (map ?g points') = V (map ?g points)"
    proof -
      have sym: "volume_between a r_point ?D + volume_between b r_point ?D
            - prod_list (map (\<lambda>i. r_point ! i - max (a ! i) (b ! i)) [0..<?D]) =
          volume_between b r_point ?D + volume_between a r_point ?D
            - prod_list (map (\<lambda>i. r_point ! i - max (b ! i) (a ! i)) [0..<?D])" for a b :: point
        by (simp only: max.commute[of "a ! _" "b ! _"] add.commute)
      from two_points_permuted[OF perm two(2)] show ?thesis
      proof
        assume "points' ! 0 = points ! 0 \<and> points' ! 1 = points ! 1"
        then show ?thesis unfolding V_def n0 by simp
      next
        assume "points' ! 0 = points ! 1 \<and> points' ! 1 = points ! 0"
        then show ?thesis unfolding V_def n0 using sym by simp
      qed
    qed
    then show ?thesis
      unfolding Suc len c1 c2 by simp
  next
    case stop
    have s': "m_current_slice ?S' = m_stop_dimension ?S'"
      using stop(4) by (simp add: start_state_fields)
    have h2: "hv2d_compute d (map ?g points') ?n r_point = hv2d_compute d (map ?g points) ?n r_point"
      using hv2d[OF m] len by simp
    have t: "take ?n (map ?g points') = map ?g points'" "take ?n (map ?g points) = map ?g points"
      using len by simp_all
    have "image_mset (take ?D) (mset (map ?g points')) = image_mset (take ?D) (mset (map ?g points))"
      using m by (simp only:)
    then have "mset (map (take ?D) (take ?n (map ?g points'))) = mset (map (take ?D) (take ?n (map ?g points)))"
      unfolding t by (simp only: mset_map)
    from hyp[OF this]
    have h3: "hypervolume_compute d (map (take ?D) (take ?n (map ?g points'))) (take ?D r_point) =
      hypervolume_compute d (map (take ?D) (take ?n (map ?g points))) (take ?D r_point)" .
    show ?thesis
      unfolding Suc len
      using h2 h3
      by (simp add: compute_hv_stop[OF rng(1) stop(2,3,4)] compute_hv_stop[OF rng(2) stop(2,3) s']
          fr start_state_fields)
  next
    case zero_empty
    then show ?thesis using r by (simp add: start_state_fields)
  next
    case zero_read
    then show ?thesis using r by (simp add: start_state_fields)
  next
    case recursive
    have s': "m_current_slice ?S' \<noteq> m_stop_dimension ?S'" "0 < m_current_slice ?S'"
      using recursive(4,5) by (simp_all add: start_state_fields)
    have e: "sorted_and_sliced ?S' 0 ?n = sorted_and_sliced ?S 0 ?n"
      using sorted_and_sliced_start[OF perm r, of st] len by simp
    show ?thesis
      unfolding Suc len
      by (simp add: compute_hv_recursive[OF rng(1) recursive(2,3,4,5)]
          compute_hv_recursive[OF rng(2) recursive(2,3) s'] e)
  qed
qed

lemma list_all_permuted: "mset xs = mset ys \<Longrightarrow> list_all P xs = list_all P ys"
  by (metis list_all_iff set_mset_mset)

lemma volume_of_compute:
  assumes "r_point \<noteq> []" and "list_all (\<lambda>p. length r_point \<le> length p) points"
  shows "volume_of (compute fuel d st points r_point) =
         volume_of (compute_hv fuel d (start_state st points r_point) 0 (length points) 1)"
proof -
  have "m_frames_size (start_state st points r_point) ! 0 = length points"
    using start_state_frame0(2)[OF assms(1)] .
  then show ?thesis using assms
    by (simp add: compute_def Let_def volume_of_def split: sum.splits)
qed

lemma compute_out_of_range:
  "r_point = [] \<or> \<not> list_all (\<lambda>p. length r_point \<le> length p) points \<Longrightarrow>
   compute fuel d st points r_point = Inl Out_of_range"
  by (auto simp: compute_def)

lemma compute_permuted:
  assumes perm: "mset points' = mset points"
    and hv2d: "\<And>ps ps' r. mset ps' = mset ps \<Longrightarrow>
                 hv2d_compute d ps' (length ps') r = hv2d_compute d ps (length ps) r"
    and hyp: "\<And>ps ps' r. mset ps' = mset ps \<Longrightarrow>
                 hypervolume_compute d ps' r = hypervolume_compute d ps r"
  shows "volume_of (compute fuel d st points' r_point) =
         volume_of (compute fuel d st points r_point)"
proof (cases "r_point = [] \<or> \<not> list_all (\<lambda>p. length r_point \<le> length p) points")
  case True
  then have "r_point = [] \<or> \<not> list_all (\<lambda>p. length r_point \<le> length p) points'"
    using list_all_permuted[OF perm] by simp
  then show ?thesis using True by (simp add: compute_out_of_range)
next
  case False
  then have g: "r_point \<noteq> []" "list_all (\<lambda>p. length r_point \<le> length p) points"
    "list_all (\<lambda>p. length r_point \<le> length p) points'"
    using list_all_permuted[OF perm] by simp_all
  show ?thesis
    unfolding volume_of_compute[OF g(1,2)] volume_of_compute[OF g(1,3)]
    by (rule compute_hv_start_permuted[OF perm g(1) hv2d hyp])
qed


subsection \<open>The recursion returns\<close>

lemma frames_ok_slice [simp]: "frames_ok (st\<lparr>m_current_slice := k\<rparr>) = frames_ok st"
  by (simp add: frames_ok_def)

lemma sort_frame_ok:
  assumes "frames_ok st" and "n \<le> length (m_frames st ! points)"
  shows "frames_ok (sort_frame st points n)" and "m_n_frames (sort_frame st points n) = m_n_frames st"
proof -
  let ?F = "m_frames st ! points"
  let ?F' = "std_sort (cmp_func st) (take n ?F) @ drop n ?F"
  have len: "length ?F' = length ?F"
    using assms(2) by (simp add: length_std_sort)
  have "set ?F' = set (take n ?F) \<union> set (drop n ?F)"
    by (simp add: set_std_sort)
  also have "\<dots> = set ?F"
    by (metis append_take_drop_id set_append)
  finally have set: "set ?F' = set ?F" .
  show "frames_ok (sort_frame st points n)"
    unfolding frames_ok_def
  proof (intro conjI allI impI)
    fix l assume "l < m_n_frames (sort_frame st points n)"
    then have ln: "l < m_n_frames st" "l < length (m_frames st)"
      using assms(1) by (simp_all add: sort_frame_def frames_ok_def)
    have F: "m_frames (sort_frame st points n) ! l = (if l = points then ?F' else m_frames st ! l)"
      using ln(2) by (simp add: sort_frame_def nth_list_update)
    show "length (m_frames (sort_frame st points n) ! l) = m_max_points (sort_frame st points n)"
      using assms(1) ln(1) len unfolding F by (auto simp: frames_ok_def sort_frame_def)
    show "\<forall>row\<in>set (m_frames (sort_frame st points n) ! l).
            length row = m_max_dim (sort_frame st points n) - l"
      using assms(1) ln(1) set unfolding F by (auto simp: frames_ok_def sort_frame_def)
  qed (use assms(1) in \<open>simp_all add: frames_ok_def sort_frame_def\<close>)
  show "m_n_frames (sort_frame st points n) = m_n_frames st"
    by (simp add: sort_frame_def)
qed

lemma new_frame_ok:
  assumes ok: "frames_ok st" and rl: "rl \<le> m_n_frames st"
    and k: "m_current_slice st + rl = m_max_dim st" "0 < m_current_slice st"
  shows "\<exists>st1. new_frame st rl = Inr st1 \<and> frames_ok st1 \<and> rl < m_n_frames st1 \<and>
           m_n_frames st \<le> m_n_frames st1"
proof (cases "rl < m_n_frames st")
  case True
  then show ?thesis using ok by (simp add: new_frame_def)
next
  case False
  then have e: "rl = m_n_frames st" using rl by simp
  have lt: "rl < m_max_dim st" using k by simp
  let ?st1 = "st\<lparr>m_frames := (m_frames st)[m_n_frames st :=
                       replicate (m_max_points st) (replicate (m_current_slice st) 0)],
                   m_frames_size := (m_frames_size st)[m_n_frames st := 0],
                   m_n_frames := m_n_frames st + 1\<rparr>"
  have n: "new_frame st rl = Inr ?st1"
    using ok e lt by (simp add: new_frame_def frames_ok_def)
  have "frames_ok ?st1"
    using ok e lt k by (auto simp: frames_ok_def nth_list_update less_Suc_eq)
  then show ?thesis using n e by simp
qed

lemma limitset_ok:
  assumes ok: "frames_ok st" and rl: "rl = points + 1" "rl < m_n_frames st"
    and k: "m_current_slice st + rl = m_max_dim st"
    and p: "p < n" "n \<le> m_max_points st"
  shows "\<exists>st2. limitset st points n p rl = Inr st2 \<and> frames_ok st2 \<and>
           m_n_frames st2 = m_n_frames st \<and> m_frames_size st2 ! rl \<le> m_max_points st \<and>
           exclusive_in_range st2 points p rl"
proof -
  let ?k = "m_current_slice st"
  let ?is = "[Suc p..<n]"
  have pl: "points < m_n_frames st" "points \<noteq> rl" using rl by simp_all
  have L: "length (m_frames st) = m_max_dim st" "length (m_frames_size st) = m_max_dim st"
    "length (m_refpoint st) = m_max_dim st" "m_n_frames st \<le> m_max_dim st"
    using ok by (simp_all add: frames_ok_def)
  have Fp: "length (m_frames st ! points) = m_max_points st"
    "\<And>row. row \<in> set (m_frames st ! points) \<Longrightarrow> length row = m_max_dim st - points"
    using ok pl(1) by (auto simp: frames_ok_def)
  have Fr: "length (m_frames st ! rl) = m_max_points st"
    "\<And>row. row \<in> set (m_frames st ! rl) \<Longrightarrow> length row = ?k"
    using ok rl(2) k by (auto simp: frames_ok_def)
  have rowp: "?k \<le> length row" if "row \<in> set (m_frames st ! points)" for row
    using Fp(2)[OF that] k rl(1) by simp
  have g: "limitset_in_range st points n p rl"
    unfolding limitset_in_range_def
    using rl(2) L pl(1) Fp(1) Fr p rowp
    by (auto simp: list_all_iff dest!: in_set_dropD in_set_takeD)
  obtain frames no where f: "fold (limit_step ?k points p rl) ?is (m_frames st, 0) = (frames, no)"
    by (cases "fold (limit_step ?k points p rl) ?is (m_frames st, 0)")
  let ?st2 = "st\<lparr>m_frames := frames, m_frames_size := (m_frames_size st)[rl := no]\<rparr>"
  have l: "limitset st points n p rl = Inr ?st2"
    using g f by (simp add: limitset_def)
  have rll: "rl < length (m_frames st)" using rl(2) L by simp
  have a4: "0 + length ?is \<le> length (m_frames st ! rl)"
    using Fr(1) p by simp
  have a5: "\<forall>j<0 + length ?is. ?k \<le> length (m_frames st ! rl ! j)"
    using Fr a4 by (metis add_0 le_refl less_le_trans nth_mem)
  note sp = fold_limit_step_spec[OF f pl(2) rll a4 a5]
  have ml: "map length (frames ! rl) = map length (m_frames st ! rl)"
    using sp by simp
  have "no \<le> n - Suc p"
    using sp by simp
  then have no: "no \<le> m_max_points st"
    using p by linarith
  obtain fr' where fr': "frames = (m_frames st)[rl := fr']"
    using limitset_frames[OF l] by auto
  have Fr2: "length (frames ! rl) = m_max_points st"
    using ml Fr(1) by (metis length_map)
  have Fr2rows: "length row = ?k" if "row \<in> set (frames ! rl)" for row
  proof -
    have "length row \<in> set (map length (frames ! rl))" using that by simp
    then have "length row \<in> set (map length (m_frames st ! rl))" using ml by simp
    then show ?thesis using Fr(2) by auto
  qed
  have other: "frames ! l = m_frames st ! l" if "l \<noteq> rl" for l
    using fr' that by simp
  have ok2: "frames_ok ?st2"
    unfolding frames_ok_def
  proof (intro conjI allI impI)
    fix l assume "l < m_n_frames ?st2"
    then have ln: "l < m_n_frames st" by simp
    show "length (m_frames ?st2 ! l) = m_max_points ?st2"
      using ok ln Fr2 other[of l] by (cases "l = rl") (auto simp: frames_ok_def)
    show "\<forall>row\<in>set (m_frames ?st2 ! l). length row = m_max_dim ?st2 - l"
      using ok ln Fr2rows other[of l] k by (cases "l = rl") (auto simp: frames_ok_def)
  qed (use ok fr' in \<open>simp_all add: frames_ok_def\<close>)
  have size: "m_frames_size ?st2 ! rl = no"
    using L rl(2) by simp
  have pmax: "p < m_max_points st" using p by simp
  have lf: "length frames = m_max_dim st" using fr' L by simp
  have "exclusive_in_range ?st2 points p rl"
    unfolding exclusive_in_range_def
    using pl L lf Fp(1) pmax rowp[of "m_frames st ! points ! p"] other[of points] k Fr2 Fr2rows
    by (auto simp: size)
  then show ?thesis using l ok2 no size by auto
qed

lemma limited_size_small:
  assumes l: "limitset st points n p rl = Inr st2" and ne: "points \<noteq> rl"
    and k: "m_current_slice st \<le> 1"
  shows "m_frames_size st2 ! rl \<le> 1"
proof (rule ccontr)
  let ?k = "m_current_slice st"
  let ?L = "limited_set st2 rl"
  let ?cs = "limit_candidates ?k (m_frames st ! points) p n"
  assume "\<not> m_frames_size st2 ! rl \<le> 1"
  then have len: "2 \<le> length ?L"
    using limitset_spec[OF l ne] by simp
  have d: "distinct ?L"
    and s: "set ?L = {c \<in> set ?cs. \<not> (\<exists>c'\<in>set ?cs. dominates ?k c' c)}"
    using limitset_spec[OF l ne] by simp_all
  define a where "a = ?L ! 0"
  define b where "b = ?L ! 1"
  have i01: "0 < length ?L" "1 < length ?L"
    using len by linarith+
  have ab: "a \<in> set ?L" "b \<in> set ?L" "a \<noteq> b"
    using i01 nth_eq_iff_index_eq[OF d i01] by (simp_all add: a_def b_def)
  then have cs: "a \<in> set ?cs" "b \<in> set ?cs"
    and nd: "\<not> dominates ?k a b" "\<not> dominates ?k b a"
    using s by auto
  have la: "length a = ?k" "length b = ?k"
    using cs length_limit_candidates by auto
  show False
  proof (cases "?k = 0")
    case True
    then show False using la ab(3) by simp
  next
    case False
    then have k1: "?k = 1" using k by simp
    then obtain x y where xy: "a = [x]" "b = [y]"
      using la by (metis One_nat_def length_0_conv length_Suc_conv)
    then have "x \<noteq> y" using ab(3) by simp
    then have "dominates ?k a b \<or> dominates ?k b a"
      unfolding dominates_iff k1 xy by (cases "x < y") auto
    then show False using nd by simp
  qed
qed

lemma hv_loop_returns:
  assumes "\<And>s i. I s \<Longrightarrow> i \<in> set is \<Longrightarrow> \<exists>v s'. ex s i = Inr (v, s') \<and> I s'"
    and "I st"
  shows "\<exists>H st'. hv_loop ex points st is H0 = Inr (H, st') \<and> I st'"
  using assms
proof (induction "is" arbitrary: st H0)
  case Nil
  then show ?case by simp
next
  case (Cons i "is")
  obtain v s1 where e: "ex st i = Inr (v, s1)" and i1: "I s1"
    using Cons.prems(1)[OF Cons.prems(2), of i] by auto
  have "\<exists>H st'. hv_loop ex points s1 is
      (H0 + \<bar>(m_frames st ! points ! i ! m_current_slice st - m_refpoint st ! m_current_slice st) * v\<bar>)
        = Inr (H, st') \<and> I st'"
    using Cons.IH[OF _ i1] Cons.prems(1) by simp
  then show ?case using e by simp
qed

lemma call_ok_rows: "call_ok st points n rl \<Longrightarrow> rows_in_range st points n"
  by (auto simp: call_ok_def frames_ok_def rows_in_range_def list_all_iff dest!: in_set_takeD)

lemma recursion_returns:
  "(\<forall>d st points n rl. call_ok st points n rl \<longrightarrow> 2 * m_current_slice st < fuel \<longrightarrow>
      (\<exists>v st'. compute_hv fuel d st points n rl = Inr (v, st') \<and> frames_ok st' \<and>
          m_n_frames st \<le> m_n_frames st')) \<and>
   (\<forall>d st points n p rl.
      frames_ok st \<longrightarrow> rl = points + 1 \<longrightarrow> points < m_n_frames st \<longrightarrow>
      m_current_slice st + rl = m_max_dim st \<longrightarrow> 0 < m_current_slice st \<longrightarrow>
      p < n \<longrightarrow> n \<le> m_max_points st \<longrightarrow> 2 * m_current_slice st + 1 < fuel \<longrightarrow>
      (\<exists>v st'. exclusive_hv fuel d st points n p rl = Inr (v, st') \<and> frames_ok st' \<and>
          m_n_frames st \<le> m_n_frames st'))"
proof (induction fuel)
  case 0
  then show ?case by simp
next
  case (Suc fuel)
  have ex: "\<exists>v st'. exclusive_hv fuel d st points n p rl = Inr (v, st') \<and> frames_ok st' \<and>
          m_n_frames st \<le> m_n_frames st'"
    if "frames_ok st" "rl = points + 1" "points < m_n_frames st"
      "m_current_slice st + rl = m_max_dim st" "0 < m_current_slice st"
      "p < n" "n \<le> m_max_points st" "2 * m_current_slice st + 1 < fuel"
    for d st points n p rl
    using Suc that by blast
  have ch: "\<exists>v st'. compute_hv fuel d st points n rl = Inr (v, st') \<and> frames_ok st' \<and>
          m_n_frames st \<le> m_n_frames st'"
    if "call_ok st points n rl" "2 * m_current_slice st < fuel" for d st points n rl
    using Suc that by blast
  have A: "\<exists>v st'. compute_hv (Suc fuel) d st points n rl = Inr (v, st') \<and> frames_ok st' \<and>
          m_n_frames st \<le> m_n_frames st'"
    if c: "call_ok st points n rl" and fu: "2 * m_current_slice st < Suc fuel"
    for d st points n rl
  proof -
    have ok: "frames_ok st" and rl: "rl = points + 1" and pl: "points < m_n_frames st"
      and k: "m_current_slice st + points = m_max_dim st" and n: "n \<le> m_max_points st"
      and big: "n \<le> 2 \<or> m_current_slice st = m_stop_dimension st \<or> 2 \<le> m_current_slice st"
      using c by (simp_all add: call_ok_def)
    have rng: "rows_in_range st points n" using call_ok_rows[OF c] .
    have nF: "n \<le> length (m_frames st ! points)"
      using rng by (simp add: rows_in_range_def)
    show ?thesis
    proof (cases rule: compute_hv_cases[of st points n])
      case range
      then show ?thesis using rng by simp
    next
      case one
      then show ?thesis using ok by (simp add: compute_hv_one)
    next
      case two
      then show ?thesis using ok by (simp add: compute_hv_two)
    next
      case stop
      then show ?thesis using ok by (simp add: compute_hv_stop)
    next
      case zero_empty
      then show ?thesis using sort_frame_ok[OF ok nF] by (simp add: compute_hv_zero_empty)
    next
      case zero_read
      then show ?thesis using big by simp
    next
      case recursive
      let ?s1 = "sorted_and_sliced st points n"
      let ?I = "\<lambda>s. frames_ok s \<and> fixed_part s = fixed_part ?s1 \<and> m_n_frames st \<le> m_n_frames s"
      have s1: "frames_ok ?s1" "m_n_frames ?s1 = m_n_frames st"
        using sort_frame_ok[OF ok nF] by (simp_all add: sorted_and_sliced_def)
      have step: "\<exists>v s'. exclusive_hv fuel d s points n i rl = Inr (v, s') \<and> ?I s'"
        if I: "?I s" and i: "i \<in> set [0..<n]" for s i
      proof -
        have n3: "2 < n" using i recursive(2,3) by (cases n) auto
        then have k2: "2 \<le> m_current_slice st" using big recursive(4) by simp
        have "fixed_part s = fixed_part ?s1" using I by simp
        then have f: "m_current_slice s = m_current_slice st - 1" "m_max_dim s = m_max_dim st"
          "m_max_points s = m_max_points st"
          unfolding sorted_and_sliced_fixed by (simp_all add: fixed_part_def)
        have "\<exists>v s'. exclusive_hv fuel d s points n i rl = Inr (v, s') \<and> frames_ok s' \<and>
            m_n_frames s \<le> m_n_frames s'"
          using I i rl pl k n k2 fu unfolding f[symmetric]
          by (intro ex) (simp_all add: f)
        then obtain v s' where e: "exclusive_hv fuel d s points n i rl = Inr (v, s')"
          and o: "frames_ok s'" "m_n_frames s \<le> m_n_frames s'"
          by blast
        have "fixed_part s' = fixed_part s"
          using fixed_part_preserved[of fuel] e by blast
        then show ?thesis using e o I by auto
      qed
      have "\<exists>H st'. hv_loop (\<lambda>s i. exclusive_hv fuel d s points n i rl) points ?s1 [0..<n] 0
              = Inr (H, st') \<and> ?I st'"
        by (rule hv_loop_returns[where I = ?I]) (use step s1 in auto)
      then obtain H st2 where l: "hv_loop (\<lambda>s i. exclusive_hv fuel d s points n i rl) points ?s1 [0..<n] 0
              = Inr (H, st2)" and I2: "?I st2"
        by blast
      have "compute_hv (Suc fuel) d st points n rl =
          Inr (H, st2\<lparr>m_current_slice := m_current_slice st2 + 1\<rparr>)"
        using l by (simp add: compute_hv_recursive[OF recursive])
      then show ?thesis using I2 by simp
    qed
  qed
  have B: "\<exists>v st'. exclusive_hv (Suc fuel) d st points n p rl = Inr (v, st') \<and> frames_ok st' \<and>
          m_n_frames st \<le> m_n_frames st'"
    if ok: "frames_ok st" and rl: "rl = points + 1" and pl: "points < m_n_frames st"
      and k: "m_current_slice st + rl = m_max_dim st" "0 < m_current_slice st"
      and p: "p < n" "n \<le> m_max_points st" and fu: "2 * m_current_slice st + 1 < Suc fuel"
    for d st points n p rl
  proof -
    have rle: "rl \<le> m_n_frames st" using rl pl by simp
    obtain st1 where n1: "new_frame st rl = Inr st1" and ok1: "frames_ok st1"
      and rl1: "rl < m_n_frames st1" and nf1: "m_n_frames st \<le> m_n_frames st1"
      using new_frame_ok[OF ok rle k] by blast
    have f1: "fixed_part st1 = fixed_part st" using new_frame_fixed[OF n1] .
    then have k1: "m_current_slice st1 + rl = m_max_dim st1" and p1: "n \<le> m_max_points st1"
      using k p by (simp_all add: fixed_part_def)
    obtain st2 where l2: "limitset st1 points n p rl = Inr st2" and ok2: "frames_ok st2"
      and nf2: "m_n_frames st2 = m_n_frames st1"
      and sz: "m_frames_size st2 ! rl \<le> m_max_points st1"
      and e2: "exclusive_in_range st2 points p rl"
      using limitset_ok[OF ok1 rl rl1 k1 p(1) p1] by blast
    have f2: "fixed_part st2 = fixed_part st" using limitset_fixed[OF l2] f1 by simp
    note eq = exclusive_hv_limited[OF n1 l2 e2, of fuel d]
    show ?thesis
    proof (cases "m_frames_size st2 ! rl > 1")
      case False
      then show ?thesis using eq ok2 nf1 nf2 by auto
    next
      case True
      have ne: "points \<noteq> rl" using rl by simp
      have "\<not> m_current_slice st1 \<le> 1"
        using limited_size_small[OF l2 ne] True by auto
      then have k2: "2 \<le> m_current_slice st2"
        using f1 f2 by (simp add: fixed_part_def)
      have c: "call_ok st2 rl (m_frames_size st2 ! rl) (rl + 1)"
        unfolding call_ok_def using ok2 rl1 nf2 k sz k2 f1 f2
        by (simp add: fixed_part_def)
      have "2 * m_current_slice st2 < fuel"
        using fu f2 by (simp add: fixed_part_def)
      from ch[OF c this, of d] obtain h st3
        where r: "compute_hv fuel d st2 rl (m_frames_size st2 ! rl) (rl + 1) = Inr (h, st3)"
          and o3: "frames_ok st3" "m_n_frames st2 \<le> m_n_frames st3"
        by blast
      show ?thesis using eq True r o3 nf1 nf2 by auto
    qed
  qed
  show ?case using A B by blast
qed

lemma call_ok_start:
  assumes "r_point \<noteq> []"
    and "length points \<le> 2 \<or> length r_point = m_stop_dimension st \<or> 2 \<le> length r_point"
  shows "call_ok (start_state st points r_point) 0 (length points) 1"
proof -
  have "Suc 0 \<le> length r_point"
    using assms(1) by (cases r_point) simp_all
  then have "frames_ok (start_state st points r_point)"
    using start_state_frame0(1)[OF assms(1), of st points]
    by (auto simp: frames_ok_def start_state_fields)
  then show ?thesis using assms
    by (simp add: call_ok_def start_state_fields)
qed

text \<open>
  A call of \<open>compute_hv\<close> as the source makes it returns, with fuel beyond twice the
  current slice; so does \<open>compute\<close> on points that have the coordinates of the reference
  point, with fuel beyond twice their number. More than two points of one coordinate are
  left out: for them line 228 stores the second frame past the end of \<open>m_frames\<close>.
\<close>

lemma compute_hv_returns:
  assumes "call_ok st points n rl" and "2 * m_current_slice st < fuel"
  shows "\<exists>v st'. compute_hv fuel d st points n rl = Inr (v, st')"
  using recursion_returns[of fuel] assms by blast

lemma compute_returns:
  assumes "r_point \<noteq> []" and "list_all (\<lambda>p. length r_point \<le> length p) points"
    and "length points \<le> 2 \<or> length r_point = m_stop_dimension st \<or> 2 \<le> length r_point"
    and "2 * length r_point < fuel"
  shows "\<exists>v. compute fuel d st points r_point = Inr (v, points)"
proof -
  let ?s = "start_state st points r_point"
  have "2 * m_current_slice ?s < fuel"
    using assms(4) by (simp add: start_state_fields)
  from compute_hv_returns[OF call_ok_start[OF assms(1,3)] this]
  obtain v st' where "compute_hv fuel d ?s 0 (length points) 1 = Inr (v, st')"
    by blast
  then show ?thesis
    using assms(1,2) start_state_frame0(2)[OF assms(1), of st points]
    by (simp add: compute_def Let_def)
qed


subsection \<open>The arrays the engine writes\<close>

lemmas compute_hv_p_Suc = compute_hv_p.simps(2)

lemmas exclusive_hv_p_Suc = exclusive_hv_p.simps(2)

declare compute_hv_p.simps(2) [simp del]

declare exclusive_hv_p.simps(2) [simp del]

declare compact_p.simps [simp del]

lemma owned_frame:
  "owned b st \<Longrightarrow> l < length (m_frames_p st) \<Longrightarrow> a \<in> set (m_frames_p st ! l) \<Longrightarrow> b \<le> a"
  by (auto simp: owned_def list_all_iff)

lemma compact_p_kept:
  "(\<forall>a\<in>set frame. b \<le> a) \<Longrightarrow> no_points \<le> length frame \<Longrightarrow> prev \<le> nxt \<Longrightarrow>
   nxt \<le> no_points \<Longrightarrow> compact_p k cmp_results no_points frame h prev nxt = (h', prev') \<Longrightarrow>
   take b h' = take b h \<and> length h' = length h \<and> prev' \<le> no_points"
proof (induction k cmp_results no_points frame h prev nxt rule: compact_p.induct)
  case (1 k cmp_results no_points frame h prev nxt)
  show ?case
  proof (cases "nxt < no_points")
    case False
    then show ?thesis using "1.prems" by (subst (asm) compact_p.simps) simp
  next
    case n: True
    show ?thesis
    proof (cases "cmp_results ! nxt \<noteq> DOM_CMP_A_DOMINATES_B \<and> cmp_results ! nxt \<noteq> DOM_CMP_A_B_EQUAL")
      case keep: True
      let ?h = "if prev < nxt
                then h[frame ! prev := copy_row k (h ! (frame ! nxt)) (h ! (frame ! prev))] else h"
      have c: "compact_p k cmp_results no_points frame ?h (Suc prev) (Suc nxt) = (h', prev')"
        using "1.prems"(5) n keep by (subst (asm) compact_p.simps) simp
      have "prev < length frame" using "1.prems"(2,3) n by simp
      then have "b \<le> frame ! prev" using "1.prems"(1) by simp
      then have h: "take b ?h = take b h" "length ?h = length h" by simp_all
      have "take b h' = take b ?h \<and> length h' = length ?h \<and> prev' \<le> no_points"
        using "1.IH"(1)[OF n keep "1.prems"(1,2) _ _ c] "1.prems"(3) n by simp
      then show ?thesis using h by simp
    next
      case drop: False
      have c: "compact_p k cmp_results no_points frame h prev (Suc nxt) = (h', prev')"
        using "1.prems"(5) n drop by (subst (asm) compact_p.simps) auto
      show ?thesis
        using "1.IH"(2)[OF n drop "1.prems"(1,2) _ _ c] "1.prems"(3) n by simp
    qed
  qed
qed

lemma limit_step_p_kept:
  assumes "\<forall>a\<in>set frame. b \<le> a" and "no_points < length frame"
    and "limit_step_p k points p_idx frame idx (h, no_points) = (h', no')"
  shows "take b h' = take b h \<and> length h' = length h \<and> no' \<le> Suc no_points"
proof -
  let ?h1 = "h[frame ! no_points :=
               limit_row k (h ! (points ! idx)) (h ! (points ! p_idx)) (h ! (frame ! no_points))]"
  have "b \<le> frame ! no_points" using assms(1,2) by simp
  then have h1: "take b ?h1 = take b h" "length ?h1 = length h" by simp_all
  obtain cmp_results keep_s
    where d: "dom_scan k (?h1 ! (frame ! no_points)) (map (\<lambda>a. ?h1 ! a) (take no_points frame))
              = (cmp_results, keep_s)"
    by (cases "dom_scan k (?h1 ! (frame ! no_points)) (map (\<lambda>a. ?h1 ! a) (take no_points frame))")
  show ?thesis
  proof (cases keep_s)
    case False
    then have "h' = ?h1" "no' = no_points"
      using assms(3) d by (auto simp: limit_step_p_def Let_def)
    then show ?thesis using h1 by simp
  next
    case True
    obtain h2 prev where c: "compact_p k cmp_results no_points frame ?h1 0 0 = (h2, prev)"
      by (cases "compact_p k cmp_results no_points frame ?h1 0 0")
    have k2: "take b h2 = take b ?h1" "length h2 = length ?h1" "prev \<le> no_points"
      using compact_p_kept[OF assms(1) _ _ _ c] assms(2) by simp_all
    let ?h3 = "if prev < no_points
               then h2[frame ! prev := copy_row k (h2 ! (frame ! no_points)) (h2 ! (frame ! prev))]
               else h2"
    have r: "h' = ?h3" "no' = prev + 1"
      using assms(3) d c True by (auto simp: limit_step_p_def Let_def)
    have "prev < length frame" using k2(3) assms(2) by simp
    then have "b \<le> frame ! prev" using assms(1) by simp
    then have "take b ?h3 = take b h2" "length ?h3 = length h2" by simp_all
    then show ?thesis using r k2 h1 by simp
  qed
qed

lemma fold_limit_step_p_kept:
  assumes "\<forall>a\<in>set frame. b \<le> a"
  shows "no_points + length is \<le> length frame \<Longrightarrow>
     fold (limit_step_p k points p_idx frame) is (h, no_points) = (h', no') \<Longrightarrow>
     take b h' = take b h \<and> length h' = length h \<and> no' \<le> no_points + length is"
proof (induction "is" arbitrary: h no_points)
  case Nil
  then show ?case by simp
next
  case (Cons idx "is")
  obtain h1 no1 where s: "limit_step_p k points p_idx frame idx (h, no_points) = (h1, no1)"
    by (cases "limit_step_p k points p_idx frame idx (h, no_points)")
  have k1: "take b h1 = take b h" "length h1 = length h" "no1 \<le> Suc no_points"
    using limit_step_p_kept[OF assms _ s] Cons.prems(1) by simp_all
  have f: "fold (limit_step_p k points p_idx frame) is (h1, no1) = (h', no')"
    using Cons.prems(2) s by simp
  have "no1 + length is \<le> length frame" using k1(3) Cons.prems(1) by simp
  from Cons.IH[OF this f] show ?case using k1 by simp
qed

lemma length_view_frames [simp]: "length (m_frames (view st)) = length (m_frames_p st)"
  by (simp add: view_def)

lemma length_view_frame [simp]:
  "l < length (m_frames_p st) \<Longrightarrow> length (m_frames (view st) ! l) = length (m_frames_p st ! l)"
  by (simp add: view_def)

lemma limitset_p_kept:
  assumes "owned b st" and "limitset_p st points n_points p_idx rec_level = Inr st'"
  shows "owned b st' \<and> take b (mem st') = take b (mem st)"
proof -
  let ?fr = "m_frames_p st ! rec_level"
  have g: "limitset_in_range (view st) points n_points p_idx rec_level"
    using assms(2) by (auto simp: limitset_p_def split: if_splits)
  obtain h no where f: "fold (limit_step_p (m_current_slice_p st) (m_frames_p st ! points) p_idx ?fr)
      [Suc p_idx..<n_points] (mem st, 0) = (h, no)"
    by (cases "fold (limit_step_p (m_current_slice_p st) (m_frames_p st ! points) p_idx ?fr)
      [Suc p_idx..<n_points] (mem st, 0)")
  have st': "st' = st\<lparr>mem := h, m_frames_size_p := (m_frames_size_p st)[rec_level := no]\<rparr>"
    using assms(2) f by (auto simp: limitset_p_def split: if_splits)
  have rl: "rec_level < length (m_frames_p st)"
    using g by (simp add: limitset_in_range_def)
  have a: "\<forall>a\<in>set ?fr. b \<le> a"
    using owned_frame[OF assms(1) rl] by blast
  have len: "0 + length [Suc p_idx..<n_points] \<le> length ?fr"
    using g rl by (auto simp: limitset_in_range_def split: if_splits)
  have "take b h = take b (mem st) \<and> length h = length (mem st)"
    using fold_limit_step_p_kept[OF a len f] by simp
  then show ?thesis using assms(1) st' by (simp add: owned_def)
qed

lemma new_frame_p_kept:
  assumes "owned b st" and "new_frame_p st rec_level = Inr st'"
  shows "owned b st' \<and> take b (mem st') = take b (mem st)"
proof (cases "rec_level \<ge> m_n_frames_p st")
  case False
  then show ?thesis using assms by (simp add: new_frame_p_def)
next
  case True
  let ?new = "[length (mem st)..<length (mem st) + m_max_points_p st]"
  have st': "st' = st\<lparr>mem := mem st @ replicate (m_max_points_p st) (replicate (m_current_slice_p st) 0),
                   m_frames_p := (m_frames_p st)[m_n_frames_p st := ?new],
                   m_frames_size_p := (m_frames_size_p st)[m_n_frames_p st := 0],
                   m_n_frames_p := m_n_frames_p st + 1\<rparr>"
    using assms(2) True by (auto simp: new_frame_p_def split: if_splits)
  have b: "b \<le> length (mem st)" using assms(1) by (simp add: owned_def)
  have "list_all (list_all (\<lambda>a. b \<le> a)) ((m_frames_p st)[m_n_frames_p st := ?new])"
    using assms(1) b
    by (auto simp: owned_def list_all_iff dest!: set_update_subset_insert[THEN subsetD])
  then show ?thesis using assms(1) b st' by (simp add: owned_def)
qed

lemma sort_frame_p_kept:
  assumes "owned b st"
  shows "owned b (sort_frame_p st points n_points) \<and> mem (sort_frame_p st points n_points) = mem st"
proof -
  let ?fr = "m_frames_p st ! points"
  let ?new = "std_sort (\<lambda>a b. cmp_func_from (m_current_slice_p st) (mem st ! a) (mem st ! b))
                (take n_points ?fr) @ drop n_points ?fr"
  have "list_all (list_all (\<lambda>a. b \<le> a)) ((m_frames_p st)[points := ?new])"
  proof (cases "points < length (m_frames_p st)")
    case False
    then have "(m_frames_p st)[points := ?new] = m_frames_p st"
      by (intro list_update_beyond) simp
    then show ?thesis using assms by (simp add: owned_def)
  next
    case True
    have "set ?new = set (take n_points ?fr) \<union> set (drop n_points ?fr)"
      by (simp add: set_std_sort)
    also have "\<dots> = set ?fr"
      by (metis append_take_drop_id set_append)
    finally have "list_all (\<lambda>a. b \<le> a) ?new"
      using owned_frame[OF assms True] by (simp add: list_all_iff)
    moreover have "\<forall>fr\<in>set (m_frames_p st). list_all (\<lambda>a. b \<le> a) fr"
      using assms by (simp add: owned_def list_all_iff)
    ultimately show ?thesis
      unfolding list_all_iff[of _ "(m_frames_p st)[points := ?new]"]
      using set_update_subset_insert[of "m_frames_p st" points ?new] by blast
  qed
  then show ?thesis using assms by (simp add: sort_frame_p_def owned_def)
qed

lemma hv_loop_p_kept:
  assumes "\<And>s i v s'. owned b s \<Longrightarrow> ex s i = Inr (v, s') \<Longrightarrow>
             owned b s' \<and> take b (mem s') = take b (mem s)"
  shows "owned b st \<Longrightarrow> hv_loop_p ex points st is H = Inr (H', st') \<Longrightarrow>
         owned b st' \<and> take b (mem st') = take b (mem st)"
proof (induction "is" arbitrary: st H)
  case Nil
  then show ?case by simp
next
  case (Cons i "is")
  from Cons.prems(2) obtain v s1 where e: "ex st i = Inr (v, s1)"
    and l: "hv_loop_p ex points s1 is
              (H + \<bar>(m_frames (view st) ! points ! i ! m_current_slice_p st
                     - m_refpoint (view st) ! m_current_slice_p st) * v\<bar>) = Inr (H', st')"
    by (auto split: sum.splits)
  have k: "owned b s1" "take b (mem s1) = take b (mem st)"
    using assms[OF Cons.prems(1) e] by simp_all
  from Cons.IH[OF k(1) l] show ?case using k(2) by simp
qed

lemma owned_slice [simp]: "owned b (st\<lparr>m_current_slice_p := k\<rparr>) = owned b st"
  by (simp add: owned_def)

lemma memory_kept:
  "(\<forall>d st points n_points rec_level v st'.
      owned b st \<longrightarrow> compute_hv_p fuel d st points n_points rec_level = Inr (v, st') \<longrightarrow>
      owned b st' \<and> take b (mem st') = take b (mem st)) \<and>
   (\<forall>d st points n_points p_idx rec_level v st'.
      owned b st \<longrightarrow> exclusive_hv_p fuel d st points n_points p_idx rec_level = Inr (v, st') \<longrightarrow>
      owned b st' \<and> take b (mem st') = take b (mem st))"
proof (induction fuel)
  case 0
  then show ?case by simp
next
  case (Suc fuel)
  have ex: "owned b s' \<and> take b (mem s') = take b (mem s)"
    if "owned b s" "exclusive_hv_p fuel d s points n_points i rec_level = Inr (v, s')"
    for d s points n_points i rec_level v s'
    using Suc that by blast
  have co: "owned b s' \<and> take b (mem s') = take b (mem s)"
    if "owned b s" "compute_hv_p fuel d s points n_points rec_level = Inr (v, s')"
    for d s points n_points rec_level v s'
    using Suc that by blast
  have c: "owned b st' \<and> take b (mem st') = take b (mem st)"
    if o: "owned b st" and r: "compute_hv_p (Suc fuel) d st points n_points rec_level = Inr (v, st')"
    for d st points n_points rec_level v st'
  proof (cases "n_points = 1 \<or> n_points = 2 \<or> m_current_slice_p st = m_stop_dimension_p st")
    case True
    then have "st' = st"
      using r by (auto simp: compute_hv_p_Suc Let_def split: if_splits)
    then show ?thesis using o by simp
  next
    case False
    let ?st1 = "sort_frame_p st points n_points"
    have s1: "owned b ?st1" "mem ?st1 = mem st"
      using sort_frame_p_kept[OF o] by simp_all
    have k1: "m_current_slice_p ?st1 = m_current_slice_p st"
      by (simp add: sort_frame_p_def)
    show ?thesis
    proof (cases "m_current_slice_p st = 0")
      case True
      then have "st' = ?st1"
        using r False k1 by (auto simp: compute_hv_p_Suc Let_def split: if_splits)
      then show ?thesis using s1 by simp
    next
      case nz: False
      let ?st2 = "?st1\<lparr>m_current_slice_p := m_current_slice_p ?st1 - 1\<rparr>"
      obtain H s3 where l: "hv_loop_p (\<lambda>s i. exclusive_hv_p fuel d s points n_points i rec_level)
            points ?st2 [0..<n_points] 0 = Inr (H, s3)"
        and st': "st' = s3\<lparr>m_current_slice_p := m_current_slice_p s3 + 1\<rparr>"
        using r False nz k1
        by (auto simp: compute_hv_p_Suc Let_def split: if_splits sum.splits)
      have "owned b ?st2" using s1(1) by simp
      from hv_loop_p_kept[of b "\<lambda>s i. exclusive_hv_p fuel d s points n_points i rec_level",
          OF ex this l]
      have "owned b s3 \<and> take b (mem s3) = take b (mem ?st2)" by simp
      then show ?thesis using st' s1(2) by simp
    qed
  qed
  have e: "owned b st' \<and> take b (mem st') = take b (mem st)"
    if o: "owned b st"
      and r: "exclusive_hv_p (Suc fuel) d st points n_points p_idx rec_level = Inr (v, st')"
    for d st points n_points p_idx rec_level v st'
  proof -
    obtain st1 where n: "new_frame_p st rec_level = Inr st1"
      using r by (auto simp: exclusive_hv_p_Suc split: sum.splits)
    obtain st2 where l: "limitset_p st1 points n_points p_idx rec_level = Inr st2"
      using r n by (auto simp: exclusive_hv_p_Suc split: sum.splits)
    have k1: "owned b st1" "take b (mem st1) = take b (mem st)"
      using new_frame_p_kept[OF o n] by simp_all
    have k2: "owned b st2" "take b (mem st2) = take b (mem st)"
      using limitset_p_kept[OF k1(1) l] k1(2) by simp_all
    show ?thesis
    proof (cases "1 < m_frames_size_p st2 ! rec_level")
      case False
      then have "st' = st2"
        using r n l by (auto simp: exclusive_hv_p_Suc Let_def split: if_splits)
      then show ?thesis using k2 by simp
    next
      case True
      then obtain h where "compute_hv_p fuel d st2 rec_level (m_frames_size_p st2 ! rec_level)
            (rec_level + 1) = Inr (h, st')"
        using r n l by (auto simp: exclusive_hv_p_Suc Let_def split: if_splits sum.splits)
      from co[OF k2(1) this] show ?thesis using k2(2) by simp
    qed
  qed
  show ?case using c e by blast
qed

subsection \<open>The copies compute starts from\<close>

lemma map_nth_appended:
  "map (\<lambda>a. (xs @ ys) ! a) [length xs..<length xs + length ys] = ys"
proof -
  have "[length xs..<length xs + length ys] = map (\<lambda>i. i + length xs) [0..<length ys]"
    by (simp add: map_add_upt add.commute)
  then have "map (\<lambda>a. (xs @ ys) ! a) [length xs..<length xs + length ys]
             = map (\<lambda>i. ys ! i) [0..<length ys]"
    by (simp add: comp_def nth_append)
  then show ?thesis by (simp add: map_nth)
qed

lemma start_state_p_owned:
  "owned (length (mem st)) (start_state_p st points r_point) \<and>
   take (length (mem st)) (mem (start_state_p st points r_point)) = mem st"
proof -
  let ?D = "length (mem st ! r_point)"
  let ?fr = "[Suc (length (mem st))..<Suc (length (mem st)) + length points]"
  have "list_all (list_all (\<lambda>a. length (mem st) \<le> a)) ((replicate ?D [])[0 := ?fr])"
  proof (cases ?D)
    case 0
    then show ?thesis by simp
  next
    case (Suc n)
    then show ?thesis by (auto simp: list_all_iff)
  qed
  then show ?thesis
    by (simp add: start_state_p_def Let_def owned_def)
qed

lemma start_state_p_view:
  "view (start_state_p st points r_point) =
     start_state (view st) (map (\<lambda>a. mem st ! a) points) (mem st ! r_point)"
proof -
  let ?D = "length (mem st ! r_point)"
  let ?r = "map (\<lambda>d_idx. mem st ! r_point ! d_idx) [0..<?D]"
  let ?rows = "map (\<lambda>p. map (\<lambda>d_idx. mem st ! p ! d_idx) [0..<?D]) points"
  let ?h1 = "mem st @ [?r]"
  let ?h2 = "?h1 @ ?rows"
  have fr: "map (\<lambda>a. ?h2 ! a) [length ?h1..<length ?h1 + length points] = ?rows"
    using map_nth_appended[of ?h1 ?rows] by simp
  have r: "?h2 ! length (mem st) = ?r"
    by (simp add: nth_append)
  have "map (map (\<lambda>a. ?h2 ! a)) ((replicate ?D [])[0 := [length ?h1..<length ?h1 + length points]])
        = (replicate ?D [])[0 := ?rows]"
    unfolding map_update fr by simp
  then show ?thesis
    using r by (simp add: view_def start_state_p_def start_state_def Let_def comp_def)
qed

subsection \<open>The engine over the memory and the engine over the arrays\<close>

lemma frames_at_view: "m_frames (view st) = frames_at (mem st) (m_frames_p st)"
  by (simp add: view_def frames_at_def)

lemma length_frames_at [simp]: "length (frames_at h frames) = length frames"
  by (simp add: frames_at_def)

lemma frames_at_nth:
  "l < length frames \<Longrightarrow> frames_at h frames ! l = map (\<lambda>a. h ! a) (frames ! l)"
  by (simp add: frames_at_def)

lemma distinct_concat_nth:
  "distinct (concat xss) \<Longrightarrow> l < length xss \<Longrightarrow> j < length (xss ! l) \<Longrightarrow>
   l' < length xss \<Longrightarrow> j' < length (xss ! l') \<Longrightarrow> xss ! l ! j = xss ! l' ! j' \<Longrightarrow>
   l = l' \<and> j = j'"
proof (induction xss arbitrary: l l')
  case Nil
  then show ?case by simp
next
  case (Cons xs xss)
  have d: "distinct xs" "distinct (concat xss)" "set xs \<inter> set (concat xss) = {}"
    using Cons.prems(1) by auto
  have far: "xss ! m ! i \<in> set (concat xss)" if "m < length xss" "i < length (xss ! m)" for m i
    using that by (auto intro!: bexI[of _ "xss ! m"])
  show ?case
  proof (cases l)
    case 0
    show ?thesis
    proof (cases l')
      case l0: 0
      then show ?thesis
        using 0 Cons.prems d(1) by (simp add: nth_eq_iff_index_eq)
    next
      case (Suc m)
      have "xs ! j \<in> set xs" using 0 Cons.prems(3) by simp
      moreover have "xss ! m ! j' \<in> set (concat xss)"
        using far[of m j'] Suc Cons.prems(4,5) by simp
      ultimately show ?thesis using d(3) 0 Suc Cons.prems(6) by auto
    qed
  next
    case (Suc n)
    show ?thesis
    proof (cases l')
      case 0
      have "xs ! j' \<in> set xs" using 0 Cons.prems(5) by simp
      moreover have "xss ! n ! j \<in> set (concat xss)"
        using far[of n j] Suc Cons.prems(2,3) by simp
      ultimately show ?thesis using d(3) 0 Suc Cons.prems(6) by auto
    next
      case s: (Suc m)
      then show ?thesis
        using Suc Cons.prems Cons.IH[OF d(2), of n m] by simp
    qed
  qed
qed

lemma frames_at_write:
  assumes d: "distinct (concat frames)" and rl: "rl < length frames"
    and i: "i < length (frames ! rl)" and v: "frames ! rl ! i < length h"
  shows "frames_at (h[frames ! rl ! i := x]) frames =
         (frames_at h frames)[rl := (frames_at h frames ! rl)[i := x]]"
proof (rule nth_equalityI)
  show "length (frames_at (h[frames ! rl ! i := x]) frames) =
        length ((frames_at h frames)[rl := (frames_at h frames ! rl)[i := x]])"
    by simp
next
  fix l
  assume "l < length (frames_at (h[frames ! rl ! i := x]) frames)"
  then have l: "l < length frames" by simp
  let ?h = "h[frames ! rl ! i := x]"
  have cell: "?h ! (frames ! l ! j) = (if l = rl \<and> j = i then x else h ! (frames ! l ! j))"
    if "j < length (frames ! l)" for j
    using distinct_concat_nth[OF d l that rl i] v by (auto simp: nth_list_update)
  show "frames_at ?h frames ! l = (frames_at h frames)[rl := (frames_at h frames ! rl)[i := x]] ! l"
  proof (cases "l = rl")
    case True
    have "map (\<lambda>a. ?h ! a) (frames ! rl) = (map (\<lambda>a. h ! a) (frames ! rl))[i := x]"
      using cell True by (intro nth_equalityI) (auto simp: nth_list_update)
    then show ?thesis using True rl by (simp add: frames_at_nth)
  next
    case False
    have "map (\<lambda>a. ?h ! a) (frames ! l) = map (\<lambda>a. h ! a) (frames ! l)"
      using cell False by (intro nth_equalityI) auto
    then show ?thesis using False l by (simp add: frames_at_nth)
  qed
qed

lemma frames_at_row:
  "l < length frames \<Longrightarrow> j < length (frames ! l) \<Longrightarrow> frames_at h frames ! l ! j = h ! (frames ! l ! j)"
  by (simp add: frames_at_nth)

lemma compact_p_sim:
  assumes d: "distinct (concat frames)" and rl: "rl < length frames"
  shows "fr = frames ! rl \<Longrightarrow> no \<le> length fr \<Longrightarrow> (\<forall>a\<in>set fr. a < length h) \<Longrightarrow>
     prev \<le> nxt \<Longrightarrow> nxt \<le> no \<Longrightarrow> compact_p k cs no fr h prev nxt = (h', prev') \<Longrightarrow>
     compact k cs no (frames_at h frames ! rl) prev nxt = (frames_at h' frames ! rl, prev') \<and>
     frames_at h' frames = (frames_at h frames)[rl := frames_at h' frames ! rl] \<and>
     length h' = length h \<and> (\<forall>a. a \<notin> set fr \<longrightarrow> h' ! a = h ! a) \<and> prev' \<le> no"
proof (induction k cs no fr h prev nxt rule: compact_p.induct)
  case (1 k cs no fr h prev nxt)
  let ?F = "frames_at h frames"
  show ?case
  proof (cases "nxt < no")
    case False
    then have "h' = h" "prev' = prev"
      using "1.prems"(6) by (subst (asm) compact_p.simps, simp)+
    then show ?thesis
      using False "1.prems"(4,5) rl by (simp add: compact_done)
  next
    case n: True
    show ?thesis
    proof (cases "cs ! nxt \<noteq> DOM_CMP_A_DOMINATES_B \<and> cs ! nxt \<noteq> DOM_CMP_A_B_EQUAL")
      case keep: True
      let ?h = "if prev < nxt
                then h[fr ! prev := copy_row k (h ! (fr ! nxt)) (h ! (fr ! prev))] else h"
      have c: "compact_p k cs no fr ?h (Suc prev) (Suc nxt) = (h', prev')"
        using "1.prems"(6) n keep by (subst (asm) compact_p.simps) simp
      have p: "prev < length fr" "nxt < length fr"
        using "1.prems"(2,4) n by simp_all
      have val: "fr ! prev < length h" using "1.prems"(3) p(1) by simp
      have len: "length ?h = length h" by simp
      have rows: "?F ! rl ! nxt = h ! (fr ! nxt)" "?F ! rl ! prev = h ! (fr ! prev)"
        using frames_at_row[OF rl, of _ h] p "1.prems"(1) by simp_all
      have w: "frames_at ?h frames =
          ?F[rl := (if prev < nxt then (?F ! rl)[prev := copy_row k (?F ! rl ! nxt) (?F ! rl ! prev)]
                    else ?F ! rl)]"
      proof (cases "prev < nxt")
        case True
        then show ?thesis
          using frames_at_write[OF d rl, of prev h] p(1) val "1.prems"(1) rows by simp
      next
        case False
        then show ?thesis by simp
      qed
      then have row: "frames_at ?h frames ! rl =
          (if prev < nxt then (?F ! rl)[prev := copy_row k (?F ! rl ! nxt) (?F ! rl ! prev)]
           else ?F ! rl)"
        using rl by simp
      have "fr ! prev \<noteq> a" if "a \<notin> set fr" for a
        using that p(1) nth_mem[of prev fr] by auto
      then have else_h: "\<forall>a. a \<notin> set fr \<longrightarrow> ?h ! a = h ! a"
        by simp
      have ih: "compact k cs no (frames_at ?h frames ! rl) (Suc prev) (Suc nxt)
                  = (frames_at h' frames ! rl, prev') \<and>
                frames_at h' frames = (frames_at ?h frames)[rl := frames_at h' frames ! rl] \<and>
                length h' = length ?h \<and> (\<forall>a. a \<notin> set fr \<longrightarrow> h' ! a = ?h ! a) \<and> prev' \<le> no"
        using "1.IH"(1)[OF n keep "1.prems"(1,2) _ _ _ c] "1.prems"(3,4) n len by simp
      have "compact k cs no (?F ! rl) prev nxt = (frames_at h' frames ! rl, prev')"
        using ih row by (simp add: compact_keep[OF n keep])
      moreover have "frames_at h' frames = ?F[rl := frames_at h' frames ! rl]"
        using ih w by (metis list_update_overwrite)
      ultimately show ?thesis using ih else_h len by auto
    next
      case drop: False
      have c: "compact_p k cs no fr h prev (Suc nxt) = (h', prev')"
        using "1.prems"(6) n drop by (subst (asm) compact_p.simps) auto
      show ?thesis
        using "1.IH"(2)[OF n drop "1.prems"(1,2,3) _ _ c] "1.prems"(4) n
        by (simp add: compact_drop[OF n drop])
    qed
  qed
qed

lemma limit_step_p_sim:
  assumes d: "distinct (concat frames)" and rl: "rl < length frames"
    and pt: "points < length frames" and no: "no < length (frames ! rl)"
    and val: "\<forall>a\<in>set (frames ! rl). a < length h"
    and idx: "idx < length (frames ! points)" and p: "p_idx < length (frames ! points)"
    and s: "limit_step_p k (frames ! points) p_idx (frames ! rl) idx (h, no) = (h', no')"
  shows "limit_step k points p_idx rl idx (frames_at h frames, no) = (frames_at h' frames, no') \<and>
         length h' = length h \<and> (\<forall>a. a \<notin> set (frames ! rl) \<longrightarrow> h' ! a = h ! a) \<and>
         no' \<le> Suc no"
proof -
  let ?F = "frames_at h frames"
  let ?fr = "frames ! rl"
  let ?P = "frames ! points"
  let ?row = "limit_row k (h ! (?P ! idx)) (h ! (?P ! p_idx)) (h ! (?fr ! no))"
  let ?h1 = "h[?fr ! no := ?row]"
  let ?fr1 = "(?F ! rl)[no := ?row]"
  have reads: "?F ! points ! idx = h ! (?P ! idx)" "?F ! points ! p_idx = h ! (?P ! p_idx)"
    "?F ! rl ! no = h ! (?fr ! no)"
    using frames_at_row[OF pt idx] frames_at_row[OF pt p] frames_at_row[OF rl no] by simp_all
  have v: "?fr ! no < length h" using val no by simp
  have w1: "frames_at ?h1 frames = ?F[rl := ?fr1]"
    using frames_at_write[OF d rl no v] .
  then have fr1: "frames_at ?h1 frames ! rl = ?fr1" using rl by simp
  have len1: "length ?h1 = length h" by simp
  have val1: "\<forall>a\<in>set ?fr. a < length ?h1" using val by simp
  have s1: "?h1 ! (?fr ! no) = ?row" using v by simp
  have s1': "?fr1 ! no = ?row" using no rl by (simp add: frames_at_nth)
  have "map (\<lambda>a. ?h1 ! a) ?fr = ?fr1"
    using fr1 frames_at_nth[OF rl, of ?h1] by (simp only:)
  then have "map (\<lambda>a. ?h1 ! a) (take no ?fr) = take no ?fr1"
    by (simp only: take_map[symmetric])
  then have scan: "map (\<lambda>a. ?h1 ! a) (take no ?fr) = take no (?F ! rl)"
    by simp
  have else1: "\<forall>a. a \<notin> set ?fr \<longrightarrow> ?h1 ! a = h ! a"
  proof -
    have "?fr ! no \<noteq> a" if "a \<notin> set ?fr" for a
      using that no nth_mem[of no ?fr] by auto
    then show ?thesis by simp
  qed
  obtain cs keep where ds: "dom_scan k ?row (take no (?F ! rl)) = (cs, keep)"
    by (cases "dom_scan k ?row (take no (?F ! rl))")
  have unf: "limit_step k points p_idx rl idx (?F, no) =
      (if keep then
         (case compact k cs no ?fr1 0 0 of (fr2, prev) \<Rightarrow>
            (?F[rl := (if prev < no then fr2[prev := copy_row k (fr2 ! no) (fr2 ! prev)] else fr2)],
             prev + 1))
       else (?F[rl := ?fr1], no))"
    unfolding limit_step_def Let_def by (simp add: reads s1' ds)
  have unf_p: "limit_step_p k ?P p_idx ?fr idx (h, no) =
      (if keep then
         (case compact_p k cs no ?fr ?h1 0 0 of (h2, prev) \<Rightarrow>
            ((if prev < no then h2[?fr ! prev := copy_row k (h2 ! (?fr ! no)) (h2 ! (?fr ! prev))]
              else h2), prev + 1))
       else (?h1, no))"
    unfolding limit_step_p_def Let_def by (simp add: s1 scan ds)
  show ?thesis
  proof (cases keep)
    case False
    then have "(h', no') = (?h1, no)" using s unf_p by (simp only: if_False)
    then have "h' = ?h1" "no' = no" by simp_all
    then show ?thesis using False unf w1 else1 by simp
  next
    case True
    obtain h2 prev where c: "compact_p k cs no ?fr ?h1 0 0 = (h2, prev)"
      by (cases "compact_p k cs no ?fr ?h1 0 0")
    let ?fr2 = "frames_at h2 frames ! rl"
    have cs: "compact k cs no ?fr1 0 0 = (?fr2, prev)"
      and F2: "frames_at h2 frames = (frames_at ?h1 frames)[rl := ?fr2]"
      and len2: "length h2 = length ?h1"
      and else2: "\<forall>a. a \<notin> set ?fr \<longrightarrow> h2 ! a = ?h1 ! a" and pn: "prev \<le> no"
      using compact_p_sim[OF d rl refl _ val1 _ _ c] no fr1 by simp_all
    let ?h3 = "if prev < no
               then h2[?fr ! prev := copy_row k (h2 ! (?fr ! no)) (h2 ! (?fr ! prev))] else h2"
    have "(h', no') = (?h3, prev + 1)"
      using s unf_p True c by (simp only: if_True prod.case)
    then have r: "h' = ?h3" "no' = prev + 1" by simp_all
    have pl: "prev < length ?fr" using pn no by simp
    have rows2: "?fr2 ! no = h2 ! (?fr ! no)" "?fr2 ! prev = h2 ! (?fr ! prev)"
      using frames_at_row[OF rl no, of h2] frames_at_row[OF rl pl, of h2] by simp_all
    have F2': "frames_at h2 frames = ?F[rl := ?fr2]"
      using F2 w1 by simp
    have ow: "(frames_at h2 frames)[rl := Y] = ?F[rl := Y]" for Y
      by (metis F2' list_update_overwrite)
    have w3: "frames_at ?h3 frames =
        ?F[rl := (if prev < no then ?fr2[prev := copy_row k (?fr2 ! no) (?fr2 ! prev)] else ?fr2)]"
    proof (cases "prev < no")
      case True
      have "?fr ! prev < length h2" using val pl len2 by simp
      from frames_at_write[OF d rl pl this, of "copy_row k (h2 ! (?fr ! no)) (h2 ! (?fr ! prev))"]
      show ?thesis using True unfolding rows2 ow by (simp only: if_True)
    next
      case False
      then show ?thesis using F2' by (simp only: if_False)
    qed
    have else3: "\<forall>a. a \<notin> set ?fr \<longrightarrow> ?h3 ! a = h2 ! a"
    proof -
      have "?fr ! prev \<noteq> a" if "a \<notin> set ?fr" for a
        using that pl nth_mem[of prev ?fr] by auto
      then show ?thesis by simp
    qed
    have "limit_step k points p_idx rl idx (?F, no) = (frames_at ?h3 frames, prev + 1)"
      using unf True cs w3 by simp
    moreover have "length ?h3 = length h" using len2 by simp
    ultimately show ?thesis using r else1 else2 else3 pn by simp
  qed
qed

lemma fold_limit_step_p_sim:
  assumes d: "distinct (concat frames)" and rl: "rl < length frames"
    and pt: "points < length frames" and p: "p_idx < length (frames ! points)"
  shows "no + length is \<le> length (frames ! rl) \<Longrightarrow> (\<forall>a\<in>set (frames ! rl). a < length h) \<Longrightarrow>
     (\<forall>idx\<in>set is. idx < length (frames ! points)) \<Longrightarrow>
     fold (limit_step_p k (frames ! points) p_idx (frames ! rl)) is (h, no) = (h', no') \<Longrightarrow>
     fold (limit_step k points p_idx rl) is (frames_at h frames, no) = (frames_at h' frames, no') \<and>
     length h' = length h \<and> (\<forall>a. a \<notin> set (frames ! rl) \<longrightarrow> h' ! a = h ! a)"
proof (induction "is" arbitrary: h no)
  case Nil
  then show ?case by simp
next
  case (Cons idx "is")
  obtain h1 no1
    where s: "limit_step_p k (frames ! points) p_idx (frames ! rl) idx (h, no) = (h1, no1)"
    by (cases "limit_step_p k (frames ! points) p_idx (frames ! rl) idx (h, no)")
  have no: "no < length (frames ! rl)" using Cons.prems(1) by simp
  have idx: "idx < length (frames ! points)" using Cons.prems(3) by simp
  have k1: "limit_step k points p_idx rl idx (frames_at h frames, no) = (frames_at h1 frames, no1)"
    "length h1 = length h" "\<forall>a. a \<notin> set (frames ! rl) \<longrightarrow> h1 ! a = h ! a" "no1 \<le> Suc no"
    using limit_step_p_sim[OF d rl pt no Cons.prems(2) idx p s] by simp_all
  have f: "fold (limit_step_p k (frames ! points) p_idx (frames ! rl)) is (h1, no1) = (h', no')"
    using Cons.prems(4) s by simp
  have "no1 + length is \<le> length (frames ! rl)" using k1(4) Cons.prems(1) by simp
  from Cons.IH[OF this _ _ f] Cons.prems(2,3) k1(2)
  have "fold (limit_step k points p_idx rl) is (frames_at h1 frames, no1) = (frames_at h' frames, no') \<and>
     length h' = length h1 \<and> (\<forall>a. a \<notin> set (frames ! rl) \<longrightarrow> h' ! a = h1 ! a)"
    by simp
  then show ?case using k1 by simp
qed

lemma view_fields [simp]:
  "m_current_slice (view st) = m_current_slice_p st"
  "m_stop_dimension (view st) = m_stop_dimension_p st"
  "m_frames_size (view st) = m_frames_size_p st"
  "m_n_frames (view st) = m_n_frames_p st"
  "m_max_points (view st) = m_max_points_p st"
  "m_max_dim (view st) = m_max_dim_p st"
  "m_refpoint (view st) = mem st ! m_refpoint_p st"
  by (simp_all add: view_def)

lemma view_eq:
  "view st = \<lparr>m_current_slice = m_current_slice_p st, m_stop_dimension = m_stop_dimension_p st,
      m_refpoint = mem st ! m_refpoint_p st,
      m_frames = frames_at (mem st) (m_frames_p st),
      m_frames_size = m_frames_size_p st, m_n_frames = m_n_frames_p st,
      m_max_points = m_max_points_p st, m_max_dim = m_max_dim_p st\<rparr>"
  by (simp add: view_def frames_at_def)

lemma layout_frame_valid:
  "layout st \<Longrightarrow> l < length (m_frames_p st) \<Longrightarrow> \<forall>a\<in>set (m_frames_p st ! l). a < length (mem st)"
  by (auto simp: layout_def pointers_valid_def list_all_iff)

lemma layout_refpoint:
  "layout st \<Longrightarrow> l < length (m_frames_p st) \<Longrightarrow> m_refpoint_p st \<notin> set (m_frames_p st ! l)"
  by (auto simp: layout_def)

lemma limitset_p_sim:
  assumes lay: "layout st"
  shows "case limitset_p st points n_points p_idx rec_level of
           Inl e \<Rightarrow> limitset (view st) points n_points p_idx rec_level = Inl e
         | Inr st' \<Rightarrow> limitset (view st) points n_points p_idx rec_level = Inr (view st') \<and>
                      layout st'"
proof (cases "limitset_in_range (view st) points n_points p_idx rec_level")
  case False
  then show ?thesis by (simp add: limitset_p_def limitset_def)
next
  case g: True
  let ?frames = "m_frames_p st"
  let ?k = "m_current_slice_p st"
  let ?is = "[Suc p_idx..<n_points]"
  have pv: "pointers_valid st" using lay by (simp add: layout_def)
  have d: "distinct (concat ?frames)" using lay by (simp add: layout_def)
  have rl: "rec_level < length ?frames" and pt: "points < length ?frames"
    using g by (simp_all add: limitset_in_range_def)
  have p: "p_idx < length (?frames ! points)"
    using g pt by (simp add: limitset_in_range_def)
  have len: "0 + length ?is \<le> length (?frames ! rec_level)"
    using g rl by (auto simp: limitset_in_range_def split: if_splits)
  have idx: "\<forall>idx\<in>set ?is. idx < length (?frames ! points)"
    using g pt by (auto simp: limitset_in_range_def split: if_splits)
  obtain h no
    where f: "fold (limit_step_p ?k (?frames ! points) p_idx (?frames ! rec_level)) ?is (mem st, 0)
              = (h, no)"
    by (cases "fold (limit_step_p ?k (?frames ! points) p_idx (?frames ! rec_level)) ?is (mem st, 0)")
  let ?st' = "st\<lparr>mem := h, m_frames_size_p := (m_frames_size_p st)[rec_level := no]\<rparr>"
  have r: "limitset_p st points n_points p_idx rec_level = Inr ?st'"
    using g pv f by (simp add: limitset_p_def)
  have k: "fold (limit_step ?k points p_idx rec_level) ?is (frames_at (mem st) ?frames, 0)
             = (frames_at h ?frames, no)"
    "length h = length (mem st)" "\<forall>a. a \<notin> set (?frames ! rec_level) \<longrightarrow> h ! a = mem st ! a"
    using fold_limit_step_p_sim[OF d rl pt p len layout_frame_valid[OF lay rl] idx f] by simp_all
  have ref: "h ! m_refpoint_p st = mem st ! m_refpoint_p st"
    using k(3) layout_refpoint[OF lay rl] by simp
  have "limitset (view st) points n_points p_idx rec_level =
        Inr ((view st)\<lparr>m_frames := frames_at h ?frames,
                       m_frames_size := (m_frames_size_p st)[rec_level := no]\<rparr>)"
    using g k(1) by (simp add: limitset_def frames_at_view)
  also have "(view st)\<lparr>m_frames := frames_at h ?frames,
                       m_frames_size := (m_frames_size_p st)[rec_level := no]\<rparr> = view ?st'"
    using ref by (simp add: view_eq)
  finally have "limitset (view st) points n_points p_idx rec_level = Inr (view ?st')" .
  moreover have "layout ?st'"
    using lay k(2) by (simp add: layout_def pointers_valid_def)
  ultimately show ?thesis using r by simp
qed

lemma set_concat_update: "set (concat (fs[i := g])) \<subseteq> set (concat fs) \<union> set g"
  using set_update_subset_insert[of fs i g] by auto

lemma distinct_concat_update:
  "distinct (concat fs) \<Longrightarrow> distinct g \<Longrightarrow> set g \<inter> set (concat fs) = {} \<Longrightarrow>
   distinct (concat (fs[i := g]))"
proof (induction fs arbitrary: i)
  case Nil
  then show ?case by simp
next
  case (Cons f fs)
  show ?case
  proof (cases i)
    case 0
    then show ?thesis using Cons.prems by auto
  next
    case (Suc j)
    have "distinct (concat (fs[j := g]))"
      using Cons.IH[of j] Cons.prems by auto
    moreover have "set f \<inter> set (concat (fs[j := g])) = {}"
      using set_concat_update[of fs j g] Cons.prems by auto
    ultimately show ?thesis using Suc Cons.prems by simp
  qed
qed

lemma distinct_concat_permuted:
  "distinct (concat fs) \<Longrightarrow> i < length fs \<Longrightarrow> mset g = mset (fs ! i) \<Longrightarrow>
   distinct (concat (fs[i := g])) \<and> set (concat (fs[i := g])) = set (concat fs)"
proof (induction fs arbitrary: i)
  case Nil
  then show ?case by simp
next
  case (Cons f fs)
  show ?case
  proof (cases i)
    case 0
    then have "mset g = mset f" using Cons.prems(3) by simp
    then have "set g = set f" "distinct g = distinct f"
      by (metis set_mset_mset, metis distinct_count_atmost_1 set_mset_mset)
    then show ?thesis using 0 Cons.prems(1) by auto
  next
    case (Suc j)
    then have "distinct (concat (fs[j := g])) \<and> set (concat (fs[j := g])) = set (concat fs)"
      using Cons.IH[of j] Cons.prems by auto
    then show ?thesis using Suc Cons.prems(1) by auto
  qed
qed

lemma frames_at_appended:
  assumes "\<forall>fr\<in>set frames. \<forall>a\<in>set fr. a < length h"
  shows "frames_at (h @ extra) frames = frames_at h frames"
  using assms by (auto simp: frames_at_def nth_append)

lemma new_frame_p_sim:
  assumes lay: "layout st"
  shows "case new_frame_p st rec_level of
           Inl e \<Rightarrow> new_frame (view st) rec_level = Inl e
         | Inr st1 \<Rightarrow> new_frame (view st) rec_level = Inr (view st1) \<and> layout st1"
proof (cases "rec_level \<ge> m_n_frames_p st")
  case False
  then show ?thesis using lay by (simp add: new_frame_p_def new_frame_def)
next
  case True
  show ?thesis
  proof (cases "m_n_frames_p st < length (m_frames_p st) \<and>
                m_n_frames_p st < length (m_frames_size_p st)")
    case False
    then show ?thesis using True by (auto simp: new_frame_p_def new_frame_def)
  next
    case ok: True
    let ?frames = "m_frames_p st"
    let ?n = "m_n_frames_p st"
    let ?rows = "replicate (m_max_points_p st) (replicate (m_current_slice_p st) (0::real))"
    let ?h = "mem st @ ?rows"
    let ?new = "[length (mem st)..<length (mem st) + m_max_points_p st]"
    let ?st1 = "st\<lparr>mem := ?h, m_frames_p := ?frames[?n := ?new],
                   m_frames_size_p := (m_frames_size_p st)[?n := 0],
                   m_n_frames_p := ?n + 1\<rparr>"
    have r: "new_frame_p st rec_level = Inr ?st1"
      using True ok by (simp add: new_frame_p_def)
    have val: "\<forall>fr\<in>set ?frames. \<forall>a\<in>set fr. a < length (mem st)"
      and rv: "m_refpoint_p st < length (mem st)"
      and d: "distinct (concat ?frames)" and rn: "m_refpoint_p st \<notin> set (concat ?frames)"
      using lay by (auto simp: layout_def pointers_valid_def list_all_iff)
    have new: "map (\<lambda>a. ?h ! a) ?new = ?rows"
      using map_nth_appended[of "mem st" ?rows] by simp
    have "frames_at ?h (?frames[?n := ?new]) = (frames_at ?h ?frames)[?n := map (\<lambda>a. ?h ! a) ?new]"
      by (simp add: frames_at_def map_update)
    then have fr: "frames_at ?h (?frames[?n := ?new]) = (frames_at (mem st) ?frames)[?n := ?rows]"
      using frames_at_appended[OF val, of ?rows] new by simp
    have "new_frame (view st) rec_level =
          Inr ((view st)\<lparr>m_frames := (frames_at (mem st) ?frames)[?n := ?rows],
                         m_frames_size := (m_frames_size_p st)[?n := 0],
                         m_n_frames := ?n + 1\<rparr>)"
      using True ok by (simp add: new_frame_def frames_at_view)
    also have "(view st)\<lparr>m_frames := (frames_at (mem st) ?frames)[?n := ?rows],
                         m_frames_size := (m_frames_size_p st)[?n := 0],
                         m_n_frames := ?n + 1\<rparr> = view ?st1"
      using fr rv by (simp add: view_eq nth_append)
    finally have v: "new_frame (view st) rec_level = Inr (view ?st1)" .
    have "set ?new \<inter> set (concat ?frames) = {}"
      using val by fastforce
    then have d1: "distinct (concat (?frames[?n := ?new]))"
      using distinct_concat_update[OF d, of ?new ?n] by simp
    have sub: "set (concat (?frames[?n := ?new])) \<subseteq> set (concat ?frames) \<union> set ?new"
      using set_concat_update .
    have rn1: "m_refpoint_p st \<notin> set (concat (?frames[?n := ?new]))"
      using sub rn rv by auto
    have "\<forall>a\<in>set (concat (?frames[?n := ?new])). a < length ?h"
      using sub val by fastforce
    then have "pointers_valid ?st1"
      using rv by (auto simp: pointers_valid_def list_all_iff)
    then have "layout ?st1" using d1 rn1 by (simp add: layout_def)
    then show ?thesis using r v by simp
  qed
qed

lemma insert_sorted_map:
  "map f (insert_sorted (\<lambda>a b. lt (f a) (f b)) x xs) = insert_sorted lt (f x) (map f xs)"
  by (induction xs) simp_all

lemma std_sort_map: "map f (std_sort (\<lambda>a b. lt (f a) (f b)) xs) = std_sort lt (map f xs)"
  by (induction xs) (simp_all add: std_sort_def insert_sorted_map)

lemma sort_frame_p_sim:
  assumes lay: "layout st"
  shows "view (sort_frame_p st points n_points) = sort_frame (view st) points n_points \<and>
         layout (sort_frame_p st points n_points)"
proof (cases "points < length (m_frames_p st)")
  case False
  then have "sort_frame_p st points n_points = st"
    "sort_frame (view st) points n_points = view st"
    by (simp_all add: sort_frame_p_def sort_frame_def list_update_beyond)
  then show ?thesis using lay by simp
next
  case True
  let ?frames = "m_frames_p st"
  let ?fr = "?frames ! points"
  let ?lt = "\<lambda>a b. cmp_func_from (m_current_slice_p st) (mem st ! a) (mem st ! b)"
  let ?new = "std_sort ?lt (take n_points ?fr) @ drop n_points ?fr"
  have cf: "cmp_func (view st) = cmp_func_from (m_current_slice_p st)"
    by (intro ext) (simp add: cmp_func_def)
  have m: "map (\<lambda>a. mem st ! a) ?new =
           std_sort (cmp_func (view st)) (take n_points (frames_at (mem st) ?frames ! points))
           @ drop n_points (frames_at (mem st) ?frames ! points)"
    using True std_sort_map[of "\<lambda>a. mem st ! a" "cmp_func_from (m_current_slice_p st)"
        "take n_points ?fr"]
    by (simp add: frames_at_nth take_map drop_map cf)
  have "frames_at (mem st) (?frames[points := ?new])
        = (frames_at (mem st) ?frames)[points := map (\<lambda>a. mem st ! a) ?new]"
    by (simp add: frames_at_def map_update)
  then have v: "view (sort_frame_p st points n_points) = sort_frame (view st) points n_points"
    using m by (simp add: view_eq sort_frame_p_def sort_frame_def)
  have "mset ?new = mset (take n_points ?fr) + mset (drop n_points ?fr)"
    by (simp add: mset_std_sort)
  also have "\<dots> = mset ?fr"
    by (metis append_take_drop_id mset_append)
  finally have ms: "mset ?new = mset ?fr" .
  have d: "distinct (concat ?frames)" using lay by (simp add: layout_def)
  have dc: "distinct (concat (?frames[points := ?new]))"
    "set (concat (?frames[points := ?new])) = set (concat ?frames)"
    using distinct_concat_permuted[OF d True ms] by simp_all
  have "\<forall>a\<in>set (concat ?frames). a < length (mem st)"
    using lay by (auto simp: layout_def pointers_valid_def list_all_iff)
  then have "\<forall>a\<in>set (concat (?frames[points := ?new])). a < length (mem st)"
    using dc(2) by simp
  then have "pointers_valid (sort_frame_p st points n_points)"
    using lay by (auto simp: layout_def pointers_valid_def list_all_iff sort_frame_p_def)
  then have "layout (sort_frame_p st points n_points)"
    using lay dc by (simp add: layout_def sort_frame_p_def)
  then show ?thesis using v by simp
qed

lemma layout_slice [simp]: "layout (st\<lparr>m_current_slice_p := k\<rparr>) = layout st"
  by (simp add: layout_def pointers_valid_def)

lemma view_slice [simp]:
  "view (st\<lparr>m_current_slice_p := k\<rparr>) = (view st)\<lparr>m_current_slice := k\<rparr>"
  by (simp add: view_def)

lemma same_result_Inl [simp]: "same_result (Inl e) r \<longleftrightarrow> r = Inl e"
  by (simp add: same_result_def)

lemma same_result_Inr [simp]:
  "same_result (Inr (v, st')) r \<longleftrightarrow> r = Inr (v, view st') \<and> layout st'"
  by (simp add: same_result_def)

lemma hv_loop_p_sim:
  assumes "\<And>s i. layout s \<Longrightarrow> same_result (ex_p s i) (ex (view s) i)"
  shows "layout st \<Longrightarrow> same_result (hv_loop_p ex_p points st is H) (hv_loop ex points (view st) is H)"
proof (induction "is" arbitrary: st H)
  case Nil
  then show ?case by simp
next
  case (Cons i "is")
  show ?case
  proof (cases "ex_p st i")
    case (Inl e)
    then show ?thesis using assms[OF Cons.prems, of i] by simp
  next
    case (Inr r)
    obtain v s1 where r: "r = (v, s1)" by (cases r)
    have e: "ex (view st) i = Inr (v, view s1)" and l: "layout s1"
      using assms[OF Cons.prems, of i] Inr r by simp_all
    show ?thesis
      using Cons.IH[OF l] Inr r e by simp
  qed
qed

lemma recursion_sim:
  "(\<forall>d st points n_points rec_level. layout st \<longrightarrow>
      same_result (compute_hv_p fuel d st points n_points rec_level)
        (compute_hv fuel d (view st) points n_points rec_level)) \<and>
   (\<forall>d st points n_points p_idx rec_level. layout st \<longrightarrow>
      same_result (exclusive_hv_p fuel d st points n_points p_idx rec_level)
        (exclusive_hv fuel d (view st) points n_points p_idx rec_level))"
proof (induction fuel)
  case 0
  then show ?case by simp
next
  case (Suc fuel)
  have ex: "same_result (exclusive_hv_p fuel d s points n_points i rec_level)
              (exclusive_hv fuel d (view s) points n_points i rec_level)"
    if "layout s" for d s points n_points i rec_level
    using Suc that by blast
  have co: "same_result (compute_hv_p fuel d s points n_points rec_level)
              (compute_hv fuel d (view s) points n_points rec_level)"
    if "layout s" for d s points n_points rec_level
    using Suc that by blast
  have c: "same_result (compute_hv_p (Suc fuel) d st points n_points rec_level)
             (compute_hv (Suc fuel) d (view st) points n_points rec_level)"
    if lay: "layout st" for d st points n_points rec_level
  proof -
    have pv: "pointers_valid st" using lay by (simp add: layout_def)
    show ?thesis
    proof (cases "rows_in_range (view st) points n_points")
      case False
      then show ?thesis by (simp add: compute_hv_p_Suc compute_hv_Suc)
    next
      case g: True
      show ?thesis
      proof (cases "n_points = 1 \<or> n_points = 2 \<or> m_current_slice_p st = m_stop_dimension_p st")
        case True
        then show ?thesis
          using g pv lay by (auto simp: compute_hv_p_Suc compute_hv_Suc Let_def)
      next
        case False
        let ?p1 = "sort_frame_p st points n_points"
        let ?l1 = "sort_frame (view st) points n_points"
        have s1: "view ?p1 = ?l1" "layout ?p1"
          using sort_frame_p_sim[OF lay] by simp_all
        have k1: "m_current_slice_p ?p1 = m_current_slice_p st" "m_current_slice ?l1 = m_current_slice_p st"
          by (simp_all add: sort_frame_p_def sort_frame_def)
        show ?thesis
        proof (cases "m_current_slice_p st = 0")
          case True
          then show ?thesis
            using g pv False k1 sort_frame_p_sim[OF lay, of points 0]
            by (simp add: compute_hv_p_Suc compute_hv_Suc Let_def)
        next
          case nz: False
          let ?p2 = "?p1\<lparr>m_current_slice_p := m_current_slice_p ?p1 - 1\<rparr>"
          let ?l2 = "?l1\<lparr>m_current_slice := m_current_slice ?l1 - 1\<rparr>"
          have v2: "view ?p2 = ?l2" "layout ?p2"
            using s1 k1 by simp_all
          have loop: "same_result
              (hv_loop_p (\<lambda>s i. exclusive_hv_p fuel d s points n_points i rec_level) points ?p2
                 [0..<n_points] 0)
              (hv_loop (\<lambda>s i. exclusive_hv fuel d s points n_points i rec_level) points ?l2
                 [0..<n_points] 0)"
            using hv_loop_p_sim[of "\<lambda>s i. exclusive_hv_p fuel d s points n_points i rec_level"
                "\<lambda>s i. exclusive_hv fuel d s points n_points i rec_level", OF ex v2(2)]
            unfolding v2(1) .
          have up: "compute_hv_p (Suc fuel) d st points n_points rec_level =
              (case hv_loop_p (\<lambda>s i. exclusive_hv_p fuel d s points n_points i rec_level) points ?p2
                      [0..<n_points] 0 of
                 Inl e \<Rightarrow> Inl e
               | Inr (H, st2) \<Rightarrow> Inr (H, st2\<lparr>m_current_slice_p := m_current_slice_p st2 + 1\<rparr>))"
            using g pv False nz k1 by (simp add: compute_hv_p_Suc Let_def)
          have ul: "compute_hv (Suc fuel) d (view st) points n_points rec_level =
              (case hv_loop (\<lambda>s i. exclusive_hv fuel d s points n_points i rec_level) points ?l2
                      [0..<n_points] 0 of
                 Inl e \<Rightarrow> Inl e
               | Inr (H, st2) \<Rightarrow> Inr (H, st2\<lparr>m_current_slice := m_current_slice st2 + 1\<rparr>))"
            using g False nz k1 by (simp add: compute_hv_Suc Let_def)
          show ?thesis
          proof (cases "hv_loop_p (\<lambda>s i. exclusive_hv_p fuel d s points n_points i rec_level) points
                          ?p2 [0..<n_points] 0")
            case (Inl e)
            then show ?thesis using loop up ul by simp
          next
            case (Inr r)
            obtain H s3 where r: "r = (H, s3)" by (cases r)
            then show ?thesis using loop up ul Inr by simp
          qed
        qed
      qed
    qed
  qed
  have e: "same_result (exclusive_hv_p (Suc fuel) d st points n_points p_idx rec_level)
             (exclusive_hv (Suc fuel) d (view st) points n_points p_idx rec_level)"
    if lay: "layout st" for d st points n_points p_idx rec_level
  proof (cases "new_frame_p st rec_level")
    case (Inl e)
    then show ?thesis
      using new_frame_p_sim[OF lay, of rec_level]
      by (simp add: exclusive_hv_p_Suc exclusive_hv_Suc)
  next
    case n: (Inr st1)
    have n1: "new_frame (view st) rec_level = Inr (view st1)" and l1: "layout st1"
      using new_frame_p_sim[OF lay, of rec_level] n by simp_all
    show ?thesis
    proof (cases "limitset_p st1 points n_points p_idx rec_level")
      case (Inl e)
      then show ?thesis
        using limitset_p_sim[OF l1, of points n_points p_idx rec_level] n n1
        by (simp add: exclusive_hv_p_Suc exclusive_hv_Suc)
    next
      case l: (Inr st2)
      have l2: "limitset (view st1) points n_points p_idx rec_level = Inr (view st2)"
        and lay2: "layout st2"
        using limitset_p_sim[OF l1, of points n_points p_idx rec_level] l by simp_all
      show ?thesis
      proof (cases "exclusive_in_range (view st2) points p_idx rec_level \<and>
                    1 < m_frames_size_p st2 ! rec_level")
        case False
        then show ?thesis
          using n n1 l l2 lay2
          by (auto simp: exclusive_hv_p_Suc exclusive_hv_Suc Let_def)
      next
        case True
        have rec: "same_result
            (compute_hv_p fuel d st2 rec_level (m_frames_size_p st2 ! rec_level) (rec_level + 1))
            (compute_hv fuel d (view st2) rec_level (m_frames_size_p st2 ! rec_level) (rec_level + 1))"
          using co[OF lay2] .
        show ?thesis
        proof (cases "compute_hv_p fuel d st2 rec_level (m_frames_size_p st2 ! rec_level)
                        (rec_level + 1)")
          case (Inl e)
          then show ?thesis
            using rec True n n1 l l2
            by (simp add: exclusive_hv_p_Suc exclusive_hv_Suc Let_def)
        next
          case (Inr r)
          obtain h st3 where r: "r = (h, st3)" by (cases r)
          then show ?thesis
            using rec Inr True n n1 l l2
            by (simp add: exclusive_hv_p_Suc exclusive_hv_Suc Let_def)
        qed
      qed
    qed
  qed
  show ?case using c e by blast
qed

lemma layout_start:
  assumes "r_point < length (mem st)" and "list_all (\<lambda>p. p < length (mem st)) points"
  shows "layout (start_state_p st points r_point)"
proof -
  let ?D = "length (mem st ! r_point)"
  let ?fr = "[Suc (length (mem st))..<Suc (length (mem st)) + length points]"
  let ?frames = "(replicate ?D [])[0 := ?fr]"
  have c: "concat ?frames = (if ?D = 0 then [] else ?fr)"
    by (cases ?D) (simp_all del: upt_Suc)
  have v: "list_all (list_all (\<lambda>a. a < Suc (length (mem st) + length points))) ?frames"
    by (cases ?D) (auto simp: list_all_iff simp del: upt_Suc)
  have d: "distinct (concat ?frames)" "length (mem st) \<notin> set (concat ?frames)"
    unfolding c by (simp_all del: upt_Suc)
  have f: "m_frames_p (start_state_p st points r_point) = ?frames"
    "m_refpoint_p (start_state_p st points r_point) = length (mem st)"
    "length (mem (start_state_p st points r_point)) = Suc (length (mem st) + length points)"
    by (simp_all add: start_state_p_def Let_def del: upt_Suc)
  show ?thesis
    unfolding layout_def pointers_valid_def f using v d by simp
qed

lemma compute_p_sim:
  assumes "r_point < length (mem st)" and "list_all (\<lambda>p. p < length (mem st)) points"
  shows "volume_of (compute_p fuel d st points r_point) =
         volume_of (compute fuel d (view st) (map (\<lambda>a. mem st ! a) points) (mem st ! r_point))"
proof -
  let ?ps = "map (\<lambda>a. mem st ! a) points"
  let ?r = "mem st ! r_point"
  let ?p1 = "start_state_p st points r_point"
  let ?l1 = "start_state (view st) ?ps ?r"
  have g: "list_all (\<lambda>p. length ?r \<le> length p) ?ps \<longleftrightarrow>
           list_all (\<lambda>p. length ?r \<le> length (mem st ! p)) points"
    by (simp add: list_all_iff)
  show ?thesis
  proof (cases "length ?r = 0 \<or> \<not> list_all (\<lambda>p. length ?r \<le> length (mem st ! p)) points")
    case True
    then show ?thesis using assms g by (auto simp: compute_p_def compute_def)
  next
    case False
    have v: "view ?p1 = ?l1" using start_state_p_view .
    have sz: "m_frames_size_p ?p1 ! 0 = m_frames_size ?l1 ! 0"
      using v by (metis view_fields(3))
    have "same_result (compute_hv_p fuel d ?p1 0 (m_frames_size_p ?p1 ! 0) 1)
            (compute_hv fuel d ?l1 0 (m_frames_size ?l1 ! 0) 1)"
      using recursion_sim[of fuel] layout_start[OF assms] v sz by metis
    then have "volume_of (compute_hv_p fuel d ?p1 0 (m_frames_size_p ?p1 ! 0) 1) =
               volume_of (compute_hv fuel d ?l1 0 (m_frames_size ?l1 ! 0) 1)"
      by (auto simp: same_result_def volume_of_def split: sum.splits)
    moreover have "volume_of (compute fuel d (view st) ?ps ?r) =
               volume_of (compute_hv fuel d ?l1 0 (m_frames_size ?l1 ! 0) 1)"
      using False g by (simp add: compute_def Let_def volume_of_def split: sum.splits)
    moreover have "compute_p fuel d st points r_point =
               compute_hv_p fuel d ?p1 0 (m_frames_size_p ?p1 ! 0) 1"
      using False assms by (simp add: compute_p_def Let_def)
    ultimately show ?thesis by simp
  qed
qed

lemma compute_p_returns:
  assumes "r_point < length (mem st)" and "list_all (\<lambda>p. p < length (mem st)) points"
    and "mem st ! r_point \<noteq> []"
    and "list_all (\<lambda>p. length (mem st ! r_point) \<le> length (mem st ! p)) points"
    and "length points \<le> 2 \<or> length (mem st ! r_point) = m_stop_dimension_p st \<or>
         2 \<le> length (mem st ! r_point)"
    and "2 * length (mem st ! r_point) < fuel"
  shows "\<exists>v st'. compute_p fuel d st points r_point = Inr (v, st') \<and>
           volume_of (compute fuel d (view st) (map (\<lambda>a. mem st ! a) points) (mem st ! r_point))
             = Inr v"
proof -
  let ?ps = "map (\<lambda>a. mem st ! a) points"
  let ?r = "mem st ! r_point"
  have "list_all (\<lambda>p. length ?r \<le> length p) ?ps"
    using assms(4) by (simp add: list_all_iff)
  from compute_returns[OF assms(3) this, of "view st" fuel d] assms(5,6)
  obtain v where c: "compute fuel d (view st) ?ps ?r = Inr (v, ?ps)"
    by auto
  then have "volume_of (compute_p fuel d st points r_point) = Inr v"
    using compute_p_sim[OF assms(1,2), of fuel d] by simp
  then show ?thesis using c volume_of_Inr by fastforce
qed

section \<open>The claims of the specification\<close>

subsection \<open>The exclusive hypervolume\<close>

text \<open>
  Claim C1. Once \<open>limitset\<close> has filled the frame at \<open>rec_level\<close>, leaving the state \<open>st2\<close>,
  the value \<open>exclusive_hv\<close> returns is the volume between the point at \<open>p_idx\<close> and the
  reference point over the current slice, minus the volume of the one limited point when
  the limited set has one point, minus the value of \<open>compute_hv\<close> on the limited set at
  \<open>rec_level + 1\<close> when it has more, and minus nothing when it is empty.
\<close>

theorem exclusive_hv_value:
  assumes "new_frame st rec_level = Inr st1"
    and "limitset st1 points n_points p_idx rec_level = Inr st2"
    and "exclusive_in_range st2 points p_idx rec_level"
  shows "volume_of (exclusive_hv (Suc fuel) d st points n_points p_idx rec_level) =
     (if m_frames_size st2 ! rec_level = 1 then
        Inr (volume_between (m_frames st2 ! points ! p_idx) (m_refpoint st2) (m_current_slice st2)
             - volume_between (m_frames st2 ! rec_level ! 0) (m_refpoint st2) (m_current_slice st2))
      else if m_frames_size st2 ! rec_level > 1 then
        (case volume_of (compute_hv fuel d st2 rec_level (m_frames_size st2 ! rec_level)
                           (rec_level + 1)) of
           Inl e \<Rightarrow> Inl e
         | Inr h \<Rightarrow>
             Inr (volume_between (m_frames st2 ! points ! p_idx) (m_refpoint st2)
                    (m_current_slice st2) - h))
      else
        Inr (volume_between (m_frames st2 ! points ! p_idx) (m_refpoint st2)
               (m_current_slice st2)))"
  unfolding exclusive_hv_limited[OF assms]
  by (auto split: sum.splits)

theorem exclusive_hv_value_witness:
  "\<exists>st1 st2. new_frame sliced3 1 = Inr st1 \<and> limitset st1 0 4 1 1 = Inr st2 \<and>
      exclusive_in_range st2 0 1 1 \<and> m_frames_size st2 ! 1 = 2 \<and>
      volume_of (compute_hv 1 no_direct st2 1 2 2) = Inr 3 \<and>
      volume_between (m_frames st2 ! 0 ! 1) (m_refpoint st2) (m_current_slice st2) = 4 \<and>
      volume_of (exclusive_hv 2 no_direct sliced3 0 4 1 1) = Inr 1"
proof -
  define st1 where "st1 = projr (new_frame sliced3 1)"
  define st2 where "st2 = projr (limitset st1 0 4 1 1)"
  have n: "new_frame sliced3 1 = Inr st1"
    unfolding st1_def by code_simp
  have l: "limitset st1 0 4 1 1 = Inr st2"
    unfolding st2_def st1_def by code_simp
  have e: "exclusive_in_range st2 0 1 1"
    unfolding st2_def st1_def by code_simp
  have z: "m_frames_size st2 ! 1 = 2"
    unfolding st2_def st1_def by code_simp
  have c: "volume_of (compute_hv 1 no_direct st2 1 2 2) = Inr 3"
    unfolding st2_def st1_def by code_simp
  have v: "volume_between (m_frames st2 ! 0 ! 1) (m_refpoint st2) (m_current_slice st2) = 4"
    unfolding st2_def st1_def by code_simp
  have "volume_of (exclusive_hv 2 no_direct sliced3 0 4 1 1) = Inr 1"
    using exclusive_hv_value[OF n l e, of 1 no_direct] z c v
    by (simp add: numeral_2_eq_2)
  then show ?thesis using n l e z c v by blast
qed

subsection \<open>The limited set\<close>

text \<open>
  Claim C2. A call of \<open>limitset\<close> on a frame of points other than the frame it writes,
  with the rows it reads and writes in range, returns; afterwards the frame at \<open>rec_level\<close>
  holds, over the current slice, the candidates that no candidate dominates, each once, and
  their number is the size recorded for \<open>rec_level\<close>.
\<close>

theorem limitset_limited_set:
  assumes "limitset_in_range st points n_points p_idx rec_level" and "points \<noteq> rec_level"
  shows "\<exists>st2. limitset st points n_points p_idx rec_level = Inr st2 \<and>
           distinct (limited_set st2 rec_level) \<and>
           set (limited_set st2 rec_level) =
             {c \<in> set (limit_candidates (m_current_slice st) (m_frames st ! points) p_idx n_points).
                \<not> (\<exists>c'\<in>set (limit_candidates (m_current_slice st) (m_frames st ! points) p_idx n_points).
                      dominates (m_current_slice st) c' c)} \<and>
           m_frames_size st2 ! rec_level = length (limited_set st2 rec_level)"
proof -
  obtain st2 where l: "limitset st points n_points p_idx rec_level = Inr st2"
    using assms(1)
    by (cases "fold (limit_step (m_current_slice st) points p_idx rec_level)
                 [Suc p_idx..<n_points] (m_frames st, 0)")
       (simp add: limitset_def)
  show ?thesis
    using l limitset_spec[OF l assms(2)] by blast
qed

theorem limitset_limited_set_witness:
  "\<exists>st1 st2. new_frame sliced3 1 = Inr st1 \<and> limitset_in_range st1 0 4 0 1 \<and>
      limitset st1 0 4 0 1 = Inr st2 \<and>
      limit_candidates 2 (m_frames st1 ! 0) 0 4 = [[2, 2], [2, 3], [3, 2]] \<and>
      limited_set st2 1 = [[2, 2]] \<and> m_frames_size st2 ! 1 = 1 \<and>
      set (limited_set st2 1) =
        {c \<in> set (limit_candidates 2 (m_frames st1 ! 0) 0 4).
           \<not> (\<exists>c'\<in>set (limit_candidates 2 (m_frames st1 ! 0) 0 4). dominates 2 c' c)}"
proof -
  define st1 where "st1 = projr (new_frame sliced3 1)"
  define st2 where "st2 = projr (limitset st1 0 4 0 1)"
  have n: "new_frame sliced3 1 = Inr st1"
    unfolding st1_def by code_simp
  have g: "limitset_in_range st1 0 4 0 1"
    unfolding st1_def by code_simp
  have l: "limitset st1 0 4 0 1 = Inr st2"
    unfolding st2_def st1_def by code_simp
  have k: "m_current_slice st1 = 2"
    unfolding st1_def by code_simp
  have c: "limit_candidates 2 (m_frames st1 ! 0) 0 4 = [[2, 2], [2, 3], [3, 2]]"
    unfolding st1_def by code_simp
  have s: "limited_set st2 1 = [[2, 2]]"
    unfolding st2_def st1_def by code_simp
  have z: "m_frames_size st2 ! 1 = 1"
    unfolding st2_def st1_def by code_simp
  have "set (limited_set st2 1) =
        {c \<in> set (limit_candidates 2 (m_frames st1 ! 0) 0 4).
           \<not> (\<exists>c'\<in>set (limit_candidates 2 (m_frames st1 ! 0) 0 4). dominates 2 c' c)}"
    using limitset_limited_set[OF g, unfolded k l] by simp
  then show ?thesis using n g l c s z by blast
qed

subsection \<open>The accumulation of the recursive step\<close>

theorem recursive_step_counterexample:
  "volume_of (compute_hv 3 no_direct (start_state engine2 pts_beyond ref_beyond) 0 3 1) = Inr 123 \<and>
   volume_of (spec_recursive_step 2 no_direct (start_state engine2 pts_beyond ref_beyond) 0 3 1)
     = Inr 27"
  by code_simp

text \<open>
  Claim C3, amended. In the recursive step of \<open>compute_hv\<close>, on the frame sorted and the
  cursor decremented, the value returned is the sum over the points of the absolute value
  of the product of the coordinate difference and the value of \<open>exclusive_hv\<close> for the point.
  Where no call of \<open>exclusive_hv\<close> returns a negative value this is the sum of the absolute
  coordinate differences times these values. On frames of the shape \<open>compute\<close> allocates the
  call does return, with fuel beyond twice the cursor.
\<close>

theorem recursive_step_sum:
  assumes "rows_in_range st points n_points" and "2 < n_points"
    and "m_current_slice st \<noteq> m_stop_dimension st" and "0 < m_current_slice st"
    and "points < rec_level"
  shows "(\<forall>H st'. compute_hv (Suc fuel) d st points n_points rec_level = Inr (H, st') \<longrightarrow>
          (\<exists>vs. excl_values (\<lambda>s i. exclusive_hv fuel d s points n_points i rec_level)
                (sorted_and_sliced st points n_points) [0..<n_points] = Inr vs \<and>
           length vs = n_points \<and>
           H = (\<Sum>i<n_points.
                  \<bar>(m_frames (sorted_and_sliced st points n_points) ! points ! i ! (m_current_slice st - 1)
                     - m_refpoint st ! (m_current_slice st - 1)) * vs ! i\<bar>) \<and>
           (list_all (\<lambda>v. 0 \<le> v) vs \<longrightarrow>
            H = (\<Sum>i<n_points.
                  \<bar>m_frames (sorted_and_sliced st points n_points) ! points ! i ! (m_current_slice st - 1)
                     - m_refpoint st ! (m_current_slice st - 1)\<bar> * vs ! i)))) \<and>
         (call_ok st points n_points rec_level \<and> 2 * m_current_slice st < Suc fuel \<longrightarrow>
          (\<exists>H st'. compute_hv (Suc fuel) d st points n_points rec_level = Inr (H, st')))"
proof (intro conjI allI impI)
  fix H st'
  assume c: "compute_hv (Suc fuel) d st points n_points rec_level = Inr (H, st')"
  let ?ex = "\<lambda>s i. exclusive_hv fuel d s points n_points i rec_level"
  let ?s = "sorted_and_sliced st points n_points"
  let ?k = "m_current_slice st - 1"
  have n: "n_points \<noteq> 1" "n_points \<noteq> 2" using assms(2) by simp_all
  obtain st2 where l: "hv_loop ?ex points ?s [0..<n_points] 0 = Inr (H, st2)"
    using c unfolding compute_hv_recursive[OF assms(1) n assms(3,4)]
    by (auto split: sum.splits)
  have keep: "m_frames s' ! points = m_frames s ! points \<and>
             m_current_slice s' = m_current_slice s \<and> m_refpoint s' = m_refpoint s"
    if e: "?ex s i = Inr (v, s')" for s i v s'
    using exclusive_hv_keeps_points[OF e assms(5)] by simp
  have "\<exists>vs. excl_values ?ex ?s [0..<n_points] = Inr vs \<and> length vs = length [0..<n_points] \<and>
           H = 0 + sum_list (map2 (\<lambda>i v. \<bar>(m_frames ?s ! points ! i ! m_current_slice ?s
                                   - m_refpoint ?s ! m_current_slice ?s) * v\<bar>) [0..<n_points] vs)"
  proof (rule hv_loop_sum[OF _ l])
    fix s i v s'
    assume "?ex s i = Inr (v, s')"
    then show "m_frames s' ! points = m_frames s ! points \<and>
             m_current_slice s' = m_current_slice s \<and> m_refpoint s' = m_refpoint s"
      by (rule keep)
  qed
  then obtain vs where vs: "excl_values ?ex ?s [0..<n_points] = Inr vs" "length vs = n_points"
    and H: "H = 0 + sum_list (map2 (\<lambda>i v. \<bar>(m_frames ?s ! points ! i ! m_current_slice ?s
                                   - m_refpoint ?s ! m_current_slice ?s) * v\<bar>) [0..<n_points] vs)"
    by auto
  have f: "m_current_slice ?s = ?k" "m_refpoint ?s = m_refpoint st"
    by (simp_all add: sorted_and_sliced_def sort_frame_def)
  have H': "H = (\<Sum>i<n_points. \<bar>(m_frames ?s ! points ! i ! ?k - m_refpoint st ! ?k) * vs ! i\<bar>)"
    using H vs(2) by (simp add: sum_list_map2_upt f)
  have "H = (\<Sum>i<n_points. \<bar>m_frames ?s ! points ! i ! ?k - m_refpoint st ! ?k\<bar> * vs ! i)"
    if "list_all (\<lambda>v. 0 \<le> v) vs"
  proof -
    have "0 \<le> vs ! i" if "i < n_points" for i
      using \<open>list_all (\<lambda>v. 0 \<le> v) vs\<close> that vs(2) by (simp add: list_all_length)
    then show ?thesis unfolding H'
      by (intro sum.cong refl) (simp add: abs_mult)
  qed
  then show "\<exists>vs. excl_values ?ex ?s [0..<n_points] = Inr vs \<and> length vs = n_points \<and>
      H = (\<Sum>i<n_points. \<bar>(m_frames ?s ! points ! i ! ?k - m_refpoint st ! ?k) * vs ! i\<bar>) \<and>
      (list_all (\<lambda>v. 0 \<le> v) vs \<longrightarrow>
       H = (\<Sum>i<n_points. \<bar>m_frames ?s ! points ! i ! ?k - m_refpoint st ! ?k\<bar> * vs ! i))"
    using vs H' by blast
next
  assume "call_ok st points n_points rec_level \<and> 2 * m_current_slice st < Suc fuel"
  then show "\<exists>H st'. compute_hv (Suc fuel) d st points n_points rec_level = Inr (H, st')"
    using compute_hv_returns by blast
qed

theorem recursive_step_sum_witness:
  "rows_in_range (start_state engine2 pts3 ref3) 0 4 \<and>
   call_ok (start_state engine2 pts3 ref3) 0 4 1 \<and>
   (\<exists>H st'. compute_hv 7 no_direct (start_state engine2 pts3 ref3) 0 4 1 = Inr (H, st')) \<and>
   (\<exists>vs. excl_values (\<lambda>s i. exclusive_hv 2 no_direct s 0 4 i 1) sliced3 [0..<4] = Inr vs \<and>
        length vs = 4 \<and>
        (13 :: real) = (\<Sum>i<4. \<bar>(m_frames sliced3 ! 0 ! i ! 2 - ref3 ! 2) * vs ! i\<bar>))"
proof -
  let ?s = "start_state engine2 pts3 ref3"
  have "volume_of (compute_hv 3 no_direct ?s 0 4 1) = Inr 13"
    by code_simp
  then obtain st' where c: "compute_hv (Suc 2) no_direct ?s 0 4 1 = Inr (13, st')"
    using volume_of_Inr by (metis eval_nat_numeral(3))
  have len: "length pts3 = 4" "length ref3 = 3" "ref3 \<noteq> []"
    by (simp_all add: pts3_def ref3_def)
  have r: "rows_in_range ?s 0 4"
    using rows_in_range_start[of ref3 engine2 pts3] unfolding len(1) by (simp add: ref3_def)
  have ok: "call_ok ?s 0 4 1"
    using call_ok_start[of ref3 pts3 engine2] len(3) unfolding len(1,2) by simp
  have f: "m_current_slice ?s = 3" "m_stop_dimension ?s = 2" "m_refpoint ?s = ref3"
    by (simp_all add: start_state_fields ref3_def engine2_def)
  have ret: "\<exists>H st'. compute_hv 7 no_direct ?s 0 4 1 = Inr (H, st')"
    using recursive_step_sum[of ?s 0 4 1 6 no_direct] r ok f by (simp add: eval_nat_numeral)
  have "\<exists>vs. excl_values (\<lambda>s i. exclusive_hv 2 no_direct s 0 4 i 1) sliced3 [0..<4] = Inr vs \<and>
        length vs = 4 \<and>
        (13 :: real) = (\<Sum>i<4. \<bar>(m_frames sliced3 ! 0 ! i ! 2 - ref3 ! 2) * vs ! i\<bar>)"
    using recursive_step_sum[of ?s 0 4 1 2 no_direct] r c f
    by (auto simp: sliced3_def)
  then show ?thesis using r ok ret by blast
qed

subsection \<open>The base case of two points\<close>

text \<open>
  Claim C4. A call of \<open>compute_hv\<close> on two points whose rows are in range returns the sum
  of the two volumes against the reference point over the current slice, minus the product
  over the slice of the reference coordinate minus the larger of the two coordinates; and
  \<open>compute\<close> on the points (1,1) and (2,0.5) with the reference point (3,3) returns 4.5.
\<close>

theorem compute_hv_two_points:
  "(rows_in_range st points 2 \<longrightarrow>
      compute_hv (Suc fuel) d st points 2 rec_level =
        Inr (volume_between (m_frames st ! points ! 0) (m_refpoint st) (m_current_slice st)
             + volume_between (m_frames st ! points ! 1) (m_refpoint st) (m_current_slice st)
             - prod_list (map (\<lambda>i. m_refpoint st ! i
                   - max (m_frames st ! points ! 0 ! i) (m_frames st ! points ! 1 ! i))
                 [0..<m_current_slice st]), st))
   \<and> compute (Suc fuel) d st0 [[1, 1], [2, 1/2]] [3, 3] = Inr (9/2, [[1, 1], [2, 1/2]])"
  by (simp add: compute_hv_Suc compute_def start_state_def rows_in_range_def
        volume_between_def Let_def eval_nat_numeral)

theorem compute_hv_two_points_witness:
  "rows_in_range (start_state engine2 [[0, 0], [1, 2]] [4, 4]) 0 2 \<and>
   compute_hv 1 no_direct (start_state engine2 [[0, 0], [1, 2]] [4, 4]) 0 2 1 =
     Inr (16 + 6 - 6, start_state engine2 [[0, 0], [1, 2]] [4, 4])"
proof -
  have r: "rows_in_range (start_state engine2 [[0, 0], [1, 2]] [4, 4]) 0 2"
    using rows_in_range_start[of "[4, 4]" engine2 "[[0, 0], [1, 2]]"]
    by (simp add: numeral_2_eq_2)
  have f: "m_frames (start_state engine2 [[0, 0], [1, 2]] [4, 4]) ! 0 = [[0, 0], [1, 2]]"
    by (simp add: start_state_frame0 eval_nat_numeral)
  show ?thesis
    using r compute_hv_two_points[of "start_state engine2 [[0, 0], [1, 2]] [4, 4]" 0 0 no_direct 1]
    by (simp add: f start_state_fields volume_between_def eval_nat_numeral)
qed

subsection \<open>The cursor\<close>

text \<open>
  Claim C5. A call of \<open>compute_hv\<close> that returns leaves \<open>m_current_slice\<close> at the value it
  had at entry, and so does each call of \<open>exclusive_hv\<close>: the calls made in turn by the loop
  of \<open>compute_hv\<close> all start from the same cursor. A call on frames of the shape \<open>compute\<close>
  allocates does return, with fuel beyond twice the cursor.
\<close>

theorem cursor_restored:
  "(compute_hv fuel d st points n_points rec_level = Inr (v, st') \<longrightarrow>
      m_current_slice st' = m_current_slice st) \<and>
   (exclusive_hv fuel d st points n_points p_idx rec_level = Inr (w, st'') \<longrightarrow>
      m_current_slice st'' = m_current_slice st) \<and>
   (call_ok st points n_points rec_level \<and> 2 * m_current_slice st < fuel \<longrightarrow>
      (\<exists>u s. compute_hv fuel d st points n_points rec_level = Inr (u, s) \<and>
         m_current_slice s = m_current_slice st))"
proof -
  have keeps: "m_current_slice s = m_current_slice st"
    if "compute_hv fuel d st points n_points rec_level = Inr (u, s)" for u s
    using fixed_part_preserved[of fuel] that by (auto simp: fixed_part_def)
  have "m_current_slice st'' = m_current_slice st"
    if "exclusive_hv fuel d st points n_points p_idx rec_level = Inr (w, st'')"
    using fixed_part_preserved[of fuel] that by (auto simp: fixed_part_def)
  moreover have "\<exists>u s. compute_hv fuel d st points n_points rec_level = Inr (u, s) \<and>
         m_current_slice s = m_current_slice st"
    if "call_ok st points n_points rec_level" "2 * m_current_slice st < fuel"
    using compute_hv_returns[OF that] keeps by blast
  ultimately show ?thesis using keeps by blast
qed

theorem cursor_restored_witness:
  "call_ok (start_state engine2 pts3 ref3) 0 4 1 \<and>
   (\<exists>v st'. compute_hv 7 no_direct (start_state engine2 pts3 ref3) 0 4 1 = Inr (v, st') \<and>
      m_current_slice st' = 3 \<and> m_current_slice (start_state engine2 pts3 ref3) = 3)"
proof -
  have len: "length pts3 = 4" "length ref3 = 3" "ref3 \<noteq> []"
    by (simp_all add: pts3_def ref3_def)
  have ok: "call_ok (start_state engine2 pts3 ref3) 0 4 1"
    using call_ok_start[of ref3 pts3 engine2] len(3) unfolding len(1,2) by simp
  have s: "m_current_slice (start_state engine2 pts3 ref3) = 3"
    by (simp add: start_state_fields ref3_def)
  show ?thesis
    using ok s cursor_restored[of 7 no_direct "start_state engine2 pts3 ref3" 0 4 1]
    by simp
qed

subsection \<open>The validation before compute\<close>

text \<open>
  Claim C6. When some point exceeds the reference point in some component,
  \<open>verify_before_compute\<close> raises a value error, and a caller that validates before it
  computes gets that error and no number, whatever the fuel: no step of the recursion has
  run. The recursion itself never raises a value error.
\<close>

theorem violation_raises:
  assumes "p \<in> set points" "i < length p" "i < length r_point" "r_point ! i < p ! i"
  shows "verify_before_compute points r_point = Inl Value_error \<and>
         verified_compute fuel d st points r_point = Inl Value_error \<and>
         compute_hv fuel' d' st' pts n rl \<noteq> Inl Value_error \<and>
         exclusive_hv fuel' d' st' pts n p_idx rl \<noteq> Inl Value_error"
  using assert_minimisation_violation[OF assms]
    compute_hv_no_value_error exclusive_hv_no_value_error
  by (simp add: verify_before_compute_def verified_compute_def)

theorem violation_raises_witness:
  "[5, 5, 1] \<in> set [[-1, -1, 3], [-1, -1, 2], [5, 5, 1 :: real]] \<and>
   (0::nat) < length [5, 5, 1 :: real] \<and> (0::nat) < length [0, 0, 4 :: real] \<and>
   [0, 0, 4] ! 0 < [5, 5, 1 :: real] ! 0 \<and>
   verify_before_compute [[-1, -1, 3], [-1, -1, 2], [5, 5, 1]] [0, 0, 4] = Inl Value_error \<and>
   verified_compute 5 no_direct engine2 [[-1, -1, 3], [-1, -1, 2], [5, 5, 1]] [0, 0, 4] =
     Inl Value_error"
  using violation_raises[of "[5, 5, 1]" "[[-1, -1, 3], [-1, -1, 2], [5, 5, 1]]" 0 "[0, 0, 4]"
      5 no_direct engine2]
  by simp

subsection \<open>The empty point set\<close>

text \<open>
  Claim C7. With a reference point of at least one coordinate, \<open>compute\<close> on the empty point
  set returns 0 and no error, whatever the stop dimension of the engine. Where the
  dimension is the stop dimension the value is that of the direct algorithm, which is not
  among the sources: the statement assumes that it returns 0 for no points.
\<close>

theorem compute_empty:
  assumes "r_point \<noteq> []"
    and "hv2d_compute d [] 0 r_point = 0"
    and "hypervolume_compute d [] r_point = 0"
  shows "compute (Suc fuel) d st [] r_point = Inr (0, [])"
proof -
  let ?s = "start_state st [] r_point"
  have fr: "m_frames ?s ! 0 = []" and sz: "m_frames_size ?s ! 0 = 0"
    using start_state_frame0[OF assms(1), of st "[]"] by simp_all
  have rng: "rows_in_range ?s 0 0"
    using rows_in_range_start[OF assms(1), of st "[]"] by simp
  have "compute_hv (Suc fuel) d ?s 0 0 1 = Inr (0, sort_frame ?s 0 0) \<or>
        compute_hv (Suc fuel) d ?s 0 0 1 = Inr (0, ?s)"
    using rng fr assms(2,3) by (simp add: compute_hv_Suc start_state_fields Let_def)
  then show ?thesis using assms(1) sz
    by (auto simp add: compute_def Let_def)
qed

theorem compute_empty_witness:
  "compute 1 no_direct engine2 [] [3, 3] = Inr (0, []) \<and>
   compute 1 no_direct engine2 [] [3, 3, 3] = Inr (0, [])"
  using compute_empty[of "[3, 3]" no_direct 0 engine2]
    compute_empty[of "[3, 3, 3]" no_direct 0 engine2]
  by (simp add: no_direct_def)

subsection \<open>Rearranging the points\<close>

text \<open>
  Claim C8. \<open>compute\<close> gives the same result for a point set and for any rearrangement of
  it, where the direct algorithms, which are not among the sources, do so. For points and
  a reference point of one dimensionality, two at least or with two points at most, and
  with fuel beyond twice the dimensionality, this result is a hypervolume.
\<close>

theorem compute_permutation_invariant:
  assumes "mset points' = mset points"
    and "\<And>ps ps' r. mset ps' = mset ps \<Longrightarrow>
           hv2d_compute d ps' (length ps') r = hv2d_compute d ps (length ps) r"
    and "\<And>ps ps' r. mset ps' = mset ps \<Longrightarrow>
           hypervolume_compute d ps' r = hypervolume_compute d ps r"
  shows "volume_of (compute fuel d st points' r_point) =
           volume_of (compute fuel d st points r_point) \<and>
         (r_point \<noteq> [] \<and> list_all (\<lambda>p. length p = length r_point) points \<and>
          (length points \<le> 2 \<or> 2 \<le> length r_point) \<and> 2 * length r_point < fuel \<longrightarrow>
          (\<exists>v. volume_of (compute fuel d st points r_point) = Inr v))"
proof (intro conjI impI)
  show "volume_of (compute fuel d st points' r_point) = volume_of (compute fuel d st points r_point)"
    by (rule compute_permuted[OF assms])
next
  assume a: "r_point \<noteq> [] \<and> list_all (\<lambda>p. length p = length r_point) points \<and>
          (length points \<le> 2 \<or> 2 \<le> length r_point) \<and> 2 * length r_point < fuel"
  then have "list_all (\<lambda>p. length r_point \<le> length p) points"
    by (auto simp: list_all_iff)
  then obtain v where "compute fuel d st points r_point = Inr (v, points)"
    using compute_returns[of r_point points st fuel d] a by blast
  then show "\<exists>v. volume_of (compute fuel d st points r_point) = Inr v"
    by simp
qed

theorem compute_permutation_invariant_witness:
  "mset [[2, 2, 2], [2, 3, 1], [3, 2, 1], [1, 2, 3]] = mset pts3 \<and>
   volume_of (compute 7 no_direct engine2 [[2, 2, 2], [2, 3, 1], [3, 2, 1], [1, 2, 3]] ref3) = Inr 13 \<and>
   volume_of (compute 7 no_direct engine2 pts3 ref3) = Inr 13"
proof -
  have m: "mset [[2, 2, 2], [2, 3, 1], [3, 2, 1], [1, 2, 3]] = mset pts3"
    by (simp add: pts3_def)
  have v: "volume_of (compute 7 no_direct engine2 pts3 ref3) = Inr 13"
    by code_simp
  have "volume_of (compute 7 no_direct engine2 [[2, 2, 2], [2, 3, 1], [3, 2, 1], [1, 2, 3]] ref3) =
        volume_of (compute 7 no_direct engine2 pts3 ref3)"
    using compute_permutation_invariant[OF m, of no_direct 7 engine2 ref3]
    by (simp add: no_direct_def)
  then show ?thesis using m v by simp
qed

subsection \<open>The caller's points\<close>

text \<open>
  Claim C9. The caller's points and reference point are arrays of the memory \<open>compute\<close> is
  called in. \<open>compute\<close> starts from new arrays that hold copies of them: its reference point
  and the rows of its frame at index 0 are allocated by the call, and with each pointer
  replaced by the array it points to the engine is in the state \<open>start_state\<close> gives for the
  contents of the caller's arrays. The call over the memory gives what the call over the
  arrays gives. When it returns, every array that was in the memory at the call, the
  caller's among them, is as it was, and every pointer the engine holds is to an array
  that the call has allocated: what the sorting and \<open>limitset\<close> have written are the engine's
  own arrays. And the call does return on points that have the coordinates of the
  reference point, with fuel beyond twice their number.
\<close>

theorem compute_points_unchanged:
  assumes "r_point < length (mem st)" and "list_all (\<lambda>p. p < length (mem st)) points"
  shows "owned (length (mem st)) (start_state_p st points r_point) \<and>
         view (start_state_p st points r_point) =
           start_state (view st) (map (\<lambda>a. mem st ! a) points) (mem st ! r_point) \<and>
         volume_of (compute_p fuel d st points r_point) =
           volume_of (compute fuel d (view st) (map (\<lambda>a. mem st ! a) points) (mem st ! r_point)) \<and>
         (\<forall>hv st'. compute_p fuel d st points r_point = Inr (hv, st') \<longrightarrow>
            take (length (mem st)) (mem st') = mem st \<and>
            list_all (\<lambda>a. mem st' ! a = mem st ! a) (r_point # points) \<and>
            owned (length (mem st)) st') \<and>
         (mem st ! r_point \<noteq> [] \<and>
          list_all (\<lambda>p. length (mem st ! r_point) \<le> length (mem st ! p)) points \<and>
          (length points \<le> 2 \<or> 2 \<le> length (mem st ! r_point)) \<and>
          2 * length (mem st ! r_point) < fuel \<longrightarrow>
            (\<exists>hv st'. compute_p fuel d st points r_point = Inr (hv, st')))"
proof -
  let ?b = "length (mem st)"
  let ?st1 = "start_state_p st points r_point"
  have s: "owned ?b ?st1" "take ?b (mem ?st1) = mem st"
    using start_state_p_owned[of st points r_point] by simp_all
  have kept: "take ?b (mem st') = mem st \<and>
      list_all (\<lambda>a. mem st' ! a = mem st ! a) (r_point # points) \<and> owned ?b st'"
    if r: "compute_p fuel d st points r_point = Inr (hv, st')" for hv st'
  proof -
    have c: "compute_hv_p fuel d ?st1 0 (m_frames_size_p ?st1 ! 0) 1 = Inr (hv, st')"
      using r by (auto simp: compute_p_def Let_def split: if_splits)
    have k: "owned ?b st'" "take ?b (mem st') = mem st"
      using memory_kept[of ?b fuel] s c by (blast, metis)
    have "mem st' ! a = mem st ! a" if "a < ?b" for a
      using nth_take[OF that, of "mem st'"] k(2) by simp
    then have "list_all (\<lambda>a. mem st' ! a = mem st ! a) (r_point # points)"
      using assms by (simp add: list_all_iff)
    then show ?thesis using k by simp
  qed
  have ret: "\<exists>hv st'. compute_p fuel d st points r_point = Inr (hv, st')"
    if "mem st ! r_point \<noteq> []"
      "list_all (\<lambda>p. length (mem st ! r_point) \<le> length (mem st ! p)) points"
      "length points \<le> 2 \<or> 2 \<le> length (mem st ! r_point)"
      "2 * length (mem st ! r_point) < fuel"
    using compute_p_returns[OF assms that(1,2) _ that(4), of d] that(3) by blast
  show ?thesis
    using s(1) start_state_p_view[of st points r_point] compute_p_sim[OF assms, of fuel d]
      kept ret
    by blast
qed

theorem compute_points_unchanged_witness:
  "length mem3 = 5 \<and> list_all (\<lambda>p. p < length mem3) [0, 1, 2, 3] \<and>
   (\<exists>st'. compute_p 7 no_direct (engine2_p mem3) [0, 1, 2, 3] 4 = Inr (13, st') \<and>
      take 5 (mem st') = mem3 \<and> m_frames_p st' ! 0 = [6, 9, 8, 7] \<and>
      list_all (\<lambda>a. mem st' ! a = mem3 ! a) [4, 0, 1, 2, 3]) \<and>
   volume_of (compute 7 no_direct (view (engine2_p mem3)) pts3 ref3) = Inr 13"
proof -
  define st' where "st' = snd (projr (compute_p 7 no_direct (engine2_p mem3) [0, 1, 2, 3] 4))"
  have c: "compute_p 7 no_direct (engine2_p mem3) [0, 1, 2, 3] 4 = Inr (13, st')"
    unfolding st'_def by code_simp
  have f: "m_frames_p st' ! 0 = [6, 9, 8, 7]"
    unfolding st'_def by code_simp
  have l: "length mem3 = 5" "mem (engine2_p mem3) = mem3"
    by (simp_all add: mem3_def pts3_def engine2_p_def)
  have a: "(4 :: nat) < length (mem (engine2_p mem3))"
    "list_all (\<lambda>p. p < length (mem (engine2_p mem3))) [0, 1, 2, 3]"
    unfolding l by simp_all
  have m: "map (\<lambda>a. mem3 ! a) [0, 1, 2, 3] = pts3" "mem3 ! 4 = ref3"
    by (simp_all add: mem3_def pts3_def)
  have "volume_of (compute 7 no_direct (view (engine2_p mem3)) pts3 ref3) = Inr 13 \<and>
        take 5 (mem st') = mem3 \<and> list_all (\<lambda>a. mem st' ! a = mem3 ! a) [4, 0, 1, 2, 3]"
    using compute_points_unchanged[OF a, of 7 no_direct] c unfolding l m by simp
  then show ?thesis using c f l(1) by auto
qed

subsection \<open>The invariant of the bounds\<close>




end
